theory Spec2Isabelle
  imports Complex_Main "HOL-Library.Sublist"
begin

section \<open>Python strings, slices and ranges\<close>

text \<open>
  A Python \<open>str\<close> is a sequence of code points and \<open>len\<close> counts code points. The model
  is \<open>string\<close>, one \<open>char\<close> per code point, which covers the code points below 256
  (Latin-1). On this range \<open>str.isspace\<close> holds exactly for the code points
  9 to 13, 28 to 32, 133 and 160; \<open>str.strip()\<close> and \<open>str.split()\<close> use the same test.
\<close>

datatype error = ValueError | ZeroDivisionError

definition isspace :: "char \<Rightarrow> bool" where
  "isspace c = (let n = (of_char c :: nat) in
     (9 \<le> n \<and> n \<le> 13) \<or> (28 \<le> n \<and> n \<le> 32) \<or> n = 133 \<or> n = 160)"

definition lstrip :: "string \<Rightarrow> string" where
  "lstrip s = dropWhile isspace s"

definition rstrip :: "string \<Rightarrow> string" where
  "rstrip s = rev (dropWhile isspace (rev s))"

text \<open>\<open>s.strip()\<close>: leading and trailing whitespace removed.\<close>

definition strip :: "string \<Rightarrow> string" where
  "strip s = rstrip (lstrip s)"

text \<open>
  \<open>xs[i:j]\<close>: a negative bound counts from the end, and both bounds are clamped to
  \<open>0 .. len(xs)\<close>; an empty or inverted interval gives the empty list.
\<close>

definition slice_bound :: "nat \<Rightarrow> int \<Rightarrow> nat" where
  "slice_bound n k = (if k < 0 then nat (max 0 (k + int n)) else min (nat k) n)"

definition py_slice :: "'a list \<Rightarrow> int \<Rightarrow> int \<Rightarrow> 'a list" where
  "py_slice xs i j =
     (let lo = slice_bound (length xs) i; hi = slice_bound (length xs) j
      in take (hi - lo) (drop lo xs))"

text \<open>
  \<open>range(start, stop, step)\<close> as the list of the integers it yields; Python raises
  \<open>ValueError\<close> for a zero step, which \<open>py_range\<close> returns as a value.
\<close>

function range_list :: "int \<Rightarrow> int \<Rightarrow> int \<Rightarrow> int list" where
  "range_list start stop step =
     (if 0 < step \<and> start < stop then start # range_list (start + step) stop step
      else if step < 0 \<and> stop < start then start # range_list (start + step) stop step
      else [])"
  by pat_completeness auto
termination
  by (relation "measure (\<lambda>(start, stop, step).
        nat (if 0 < step then stop - start else start - stop))") auto

declare range_list.simps [simp del]

definition py_range :: "int \<Rightarrow> int \<Rightarrow> int \<Rightarrow> error + int list" where
  "py_range start stop step =
     (if step = 0 then Inl ValueError else Inr (range_list start stop step))"

section \<open>The chunker: \<open>chunk_documents\<close> of simple\_ingest.py\<close>

text \<open>
  The inner loop \<open>for i in range(0, len(doc), chunk_size)\<close> over the offsets the range
  yields, with the list \<open>chunks\<close> it appends to passed along.
\<close>

fun chunk_doc :: "string \<Rightarrow> int \<Rightarrow> int list \<Rightarrow> string list \<Rightarrow> string list" where
  "chunk_doc doc chunk_size [] chunks = chunks"
| "chunk_doc doc chunk_size (i # offsets) chunks =
     (let chunk = py_slice doc i (i + chunk_size)
      in if 50 < length (strip chunk)
         then chunk_doc doc chunk_size offsets (chunks @ [chunk])
         else chunk_doc doc chunk_size offsets chunks)"

text \<open>The outer loop \<open>for doc in documents\<close>; a zero chunk size fails at the first document.\<close>

fun chunk_loop :: "string list \<Rightarrow> int \<Rightarrow> string list \<Rightarrow> error + string list" where
  "chunk_loop [] chunk_size chunks = Inr chunks"
| "chunk_loop (doc # documents) chunk_size chunks =
     (case py_range 0 (int (length doc)) chunk_size of
        Inl e \<Rightarrow> Inl e
      | Inr offsets \<Rightarrow> chunk_loop documents chunk_size (chunk_doc doc chunk_size offsets chunks))"

definition chunk_documents :: "string list \<Rightarrow> int \<Rightarrow> error + string list" where
  "chunk_documents documents chunk_size = chunk_loop documents chunk_size []"

text \<open>
  The candidate windows of one document: the slices \<open>doc[i:i + chunk_size]\<close> the inner
  loop takes, before the length test.
\<close>

definition candidate_windows :: "string \<Rightarrow> int \<Rightarrow> string list" where
  "candidate_windows doc chunk_size =
     map (\<lambda>i. py_slice doc i (i + chunk_size)) (range_list 0 (int (length doc)) chunk_size)"

section \<open>More of Python's strings and lists\<close>

text \<open>
  \<open>s.lower()\<close> on Latin-1: the letters A to Z and the code points 192 to 222 other than
  215 (the multiplication sign) move up by 32; every other code point stays.
\<close>

definition lower_char :: "char \<Rightarrow> char" where
  "lower_char c = (let n = (of_char c :: nat) in
     if (65 \<le> n \<and> n \<le> 90) \<or> (192 \<le> n \<and> n \<le> 222 \<and> n \<noteq> 215)
     then char_of (n + 32) else c)"

definition lower :: "string \<Rightarrow> string" where
  "lower s = map lower_char s"

text \<open>
  \<open>s.split()\<close> without a separator: the maximal runs of characters that are not
  whitespace, in order; \<open>w\<close> is the run being read.
\<close>

fun split_run :: "string \<Rightarrow> string \<Rightarrow> string list" where
  "split_run w [] = (if w = [] then [] else [w])"
| "split_run w (c # cs) =
     (if isspace c then (if w = [] then split_run [] cs else w # split_run [] cs)
      else split_run (w @ [c]) cs)"

definition split_ws :: "string \<Rightarrow> string list" where
  "split_ws s = split_run [] s"

text \<open>
  \<open>s.split(sep)\<close> with a separator: the pieces between the occurrences of \<open>sep\<close>, found
  from left to right without overlap; \<open>cur\<close> is the piece being read. Python raises
  \<open>ValueError\<close> for an empty separator; both calls in the source pass a literal that is
  not empty, and the model leaves the string whole there.
\<close>

function split_scan :: "string \<Rightarrow> string \<Rightarrow> string \<Rightarrow> string list" where
  "split_scan sep cur [] = [cur]"
| "split_scan sep cur (c # cs) =
     (if sep \<noteq> [] \<and> prefix sep (c # cs)
      then cur # split_scan sep [] (drop (length sep) (c # cs))
      else split_scan sep (cur @ [c]) cs)"
  by pat_completeness auto
termination
  by (relation "measure (\<lambda>(sep, cur, s). length s)") auto

definition split_sep :: "string \<Rightarrow> string \<Rightarrow> string list" where
  "split_sep s sep = split_scan sep [] s"

text \<open>\<open>sep.join(xs)\<close>.\<close>

fun join :: "string \<Rightarrow> string list \<Rightarrow> string" where
  "join sep [] = []"
| "join sep [x] = x"
| "join sep (x # y # ys) = x @ sep @ join sep (y # ys)"

text \<open>
  \<open>s.replace(old, new)\<close>: every occurrence of \<open>old\<close>, found from left to right without
  overlap, becomes \<open>new\<close>; for an empty \<open>old\<close> Python puts \<open>new\<close> before every character
  and at the end.
\<close>

function replace_scan :: "string \<Rightarrow> string \<Rightarrow> string \<Rightarrow> string" where
  "replace_scan old new [] = []"
| "replace_scan old new (c # cs) =
     (if old \<noteq> [] \<and> prefix old (c # cs)
      then new @ replace_scan old new (drop (length old) (c # cs))
      else c # replace_scan old new cs)"
  by pat_completeness auto
termination
  by (relation "measure (\<lambda>(old, new, s). length s)") auto

definition replace :: "string \<Rightarrow> string \<Rightarrow> string \<Rightarrow> string" where
  "replace s old new =
     (if old = [] then new @ concat (map (\<lambda>c. c # new) s) else replace_scan old new s)"

text \<open>\<open>str(n)\<close> for an integer that is not negative: its decimal digits.\<close>

definition digit_char :: "nat \<Rightarrow> char" where
  "digit_char d = char_of (48 + d)"

function str_nat :: "nat \<Rightarrow> string" where
  "str_nat n = (if n < 10 then [digit_char n] else str_nat (n div 10) @ [digit_char (n mod 10)])"
  by pat_completeness auto
termination
  by (relation "measure (\<lambda>n. n)") auto

declare str_nat.simps [simp del]

text \<open>
  \<open>xs.sort(key=key, reverse=True)\<close>: Python's sort is stable, and with \<open>reverse=True\<close>
  elements with equal keys still keep their order; CPython reverses the list, sorts it
  stably in ascending order and reverses the result.
\<close>

definition sort_reverse :: "('a \<Rightarrow> 'k::linorder) \<Rightarrow> 'a list \<Rightarrow> 'a list" where
  "sort_reverse key xs = rev (sort_key key (rev xs))"

text \<open>
  \<open>a / b\<close> on integers that are not negative: \<open>ZeroDivisionError\<close> for a zero divisor.
  The quotient is kept exact, as a rational. Python's float is this rational rounded to
  the nearest double; the rounding is monotone, so it keeps the order of the quotients.
\<close>

definition truediv :: "nat \<Rightarrow> nat \<Rightarrow> error + rat" where
  "truediv a b = (if b = 0 then Inl ZeroDivisionError else Inr (of_nat a / of_nat b))"

section \<open>The retriever: \<open>simple_search\<close> of simple\_privateGPT.py\<close>

text \<open>\<open>set(s.lower().split())\<close>, the word set of a query or of a chunk.\<close>

definition word_set :: "string \<Rightarrow> string set" where
  "word_set s = set (split_ws (lower s))"

text \<open>The loop \<open>for chunk in chunks\<close>, with the list \<open>results\<close> it appends to.\<close>

fun search_loop ::
  "string set \<Rightarrow> string list \<Rightarrow> (string \<times> rat) list \<Rightarrow> error + (string \<times> rat) list" where
  "search_loop query_words [] results = Inr results"
| "search_loop query_words (chunk # chunks) results =
     (let chunk_words = word_set chunk;
          overlap = card (query_words \<inter> chunk_words)
      in if 0 < overlap
         then (case truediv overlap (card query_words) of
                 Inl e \<Rightarrow> Inl e
               | Inr score \<Rightarrow> search_loop query_words chunks (results @ [(chunk, score)]))
         else search_loop query_words chunks results)"

definition simple_search ::
  "string \<Rightarrow> string list \<Rightarrow> int \<Rightarrow> error + (string \<times> rat) list" where
  "simple_search query chunks max_results =
     (let query_words = word_set query
      in case search_loop query_words chunks [] of
           Inl e \<Rightarrow> Inl e
         | Inr results \<Rightarrow> Inr (py_slice (sort_reverse snd results) 0 max_results))"

text \<open>
  The scored chunks before sorting, in closed form: the chunks that share a word with
  the query, in input order, each with its score.
\<close>

definition scored :: "string \<Rightarrow> string list \<Rightarrow> (string \<times> rat) list" where
  "scored query chunks =
     map (\<lambda>c. (c, of_nat (card (word_set query \<inter> word_set c)) / of_nat (card (word_set query))))
       (filter (\<lambda>c. 0 < card (word_set query \<inter> word_set c)) chunks)"

section \<open>The context formatter: \<open>format_context\<close> of simple\_privateGPT.py\<close>

text \<open>
  A score is a Python float. The model takes the finite floats, each given by its exact
  value, a rational. \<open>format(score, '.2f')\<close> prints the decimal numeral with two digits
  after the point that is nearest to this exact value, a tie going to the even last digit,
  with a minus sign for a value below zero (negative zero, the infinities and NaN are not
  in the model).
\<close>

definition round_half_even :: "rat \<Rightarrow> int" where
  "round_half_even x =
     (let f = \<lfloor>x\<rfloor>; d = x - of_int f
      in if d < 1 / 2 then f else if 1 / 2 < d then f + 1 else if even f then f else f + 1)"

definition format_2f :: "rat \<Rightarrow> string" where
  "format_2f x =
     (let n = nat (round_half_even (\<bar>x\<bar> * 100))
      in (if x < 0 then ''-'' else []) @ str_nat (n div 100) @ ''.''
           @ [digit_char (n div 10 mod 10), digit_char (n mod 10)])"

text \<open>The number that a string of decimal digits denotes.\<close>

definition digits_value :: "string \<Rightarrow> nat" where
  "digits_value s = foldl (\<lambda>a c. 10 * a + ((of_char c :: nat) - 48)) 0 s"

text \<open>The loop \<open>for i, (chunk, score) in enumerate(search_results, 1)\<close>.\<close>

fun format_loop :: "nat \<Rightarrow> (string \<times> rat) list \<Rightarrow> string \<Rightarrow> string" where
  "format_loop i [] context = context"
| "format_loop i ((chunk, score) # search_results) context =
     (let display_chunk = (if 500 < length chunk then py_slice chunk 0 500 @ ''...'' else chunk)
      in format_loop (i + 1) search_results
           (context @ ''Document '' @ str_nat i @ '' (relevance: '' @ format_2f score
              @ ''):\<newline>'' @ display_chunk @ ''\<newline>\<newline>''))"

definition format_context :: "(string \<times> rat) list \<Rightarrow> string" where
  "format_context search_results =
     (if search_results = [] then ''No relevant information found in the documents.''
      else format_loop 1 search_results
             ''Based on the following information from your documents:\<newline>\<newline>'')"

text \<open>One entry of the context: header, displayed chunk, blank line.\<close>

definition context_entry :: "nat \<Rightarrow> string \<times> rat \<Rightarrow> string" where
  "context_entry i r =
     ''Document '' @ str_nat i @ '' (relevance: '' @ format_2f (snd r) @ ''):\<newline>''
       @ (if 500 < length (fst r) then take 500 (fst r) @ ''...'' else fst r)
       @ ''\<newline>\<newline>''"

section \<open>The persisted chunk file\<close>

text \<open>
  The file system is a map from paths to the text of the files. \<open>open(path, 'w')\<close>
  replaces the file; on a POSIX system the text is written as it is. \<open>open(path, 'r')\<close>
  reads with universal newlines: \<open>f.read()\<close> returns the text with every carriage return
  and line feed pair, and every other carriage return, turned into one line feed.
\<close>

type_synonym files = "string \<rightharpoonup> string"

fun universal_newlines :: "string \<Rightarrow> string" where
  "universal_newlines [] = []"
| "universal_newlines [c] = (if c = CHR 0x0D then [CHR ''\<newline>''] else [c])"
| "universal_newlines (c # d # cs) =
     (if c = CHR 0x0D
      then (if d = CHR ''\<newline>'' then CHR ''\<newline>'' # universal_newlines cs
            else CHR ''\<newline>'' # universal_newlines (d # cs))
      else c # universal_newlines (d # cs))"

text \<open>\<open>save_processed_documents\<close> of simple\_ingest.py: the loop over \<open>enumerate(chunks)\<close>.\<close>

fun save_loop :: "nat \<Rightarrow> string list \<Rightarrow> string \<Rightarrow> string" where
  "save_loop i [] written = written"
| "save_loop i (chunk # chunks) written =
     save_loop (i + 1) chunks
       (written @ (''=== CHUNK '' @ str_nat (i + 1) @ '' ===\<newline>'') @ chunk
          @ (''\<newline>\<newline>'' @ replicate 50 CHR ''='' @ ''\<newline>\<newline>''))"

definition save_processed_documents :: "string list \<Rightarrow> string \<Rightarrow> files \<Rightarrow> files" where
  "save_processed_documents chunks output_file fs = fs(output_file \<mapsto> save_loop 0 chunks [])"

text \<open>
  The text that \<open>save_loop\<close> writes for the chunk at index \<open>i\<close>, after its marker
  \<open>=== CHUNK\<close>: what a reader finds between this marker and the next one.
\<close>

definition chunk_part :: "nat \<Rightarrow> string \<Rightarrow> string" where
  "chunk_part i chunk =
     ('' '' @ str_nat (i + 1) @ '' ==='') @ CHR ''\<newline>'' # chunk
       @ CHR ''\<newline>'' # CHR ''\<newline>'' # replicate 50 CHR ''=''
       @ ''\<newline>\<newline>''"

text \<open>\<open>load_processed_documents\<close> of simple\_privateGPT.py: the loop over \<open>chunk_parts[1:]\<close>.\<close>

fun load_parts :: "string list \<Rightarrow> string list \<Rightarrow> string list" where
  "load_parts [] chunks = chunks"
| "load_parts (part # parts) chunks =
     (let lines = split_sep part ''\<newline>'';
          chunk_content = strip (join ''\<newline>'' (tl lines));
          chunk_content = strip (replace chunk_content (replicate 50 CHR ''='') [])
      in if chunk_content \<noteq> [] then load_parts parts (chunks @ [chunk_content])
         else load_parts parts chunks)"

definition load_processed_documents :: "string \<Rightarrow> files \<Rightarrow> string list" where
  "load_processed_documents file_path fs =
     (case fs file_path of
        None \<Rightarrow> []
      | Some text \<Rightarrow>
          (let content = universal_newlines text;
               chunk_parts = split_sep content ''=== CHUNK''
           in load_parts (tl chunk_parts) []))"

section \<open>Properties of the chunker\<close>

lemma chunk_doc_filter:
  "chunk_doc doc cs offsets chunks =
     chunks @ filter (\<lambda>w. 50 < length (strip w)) (map (\<lambda>i. py_slice doc i (i + cs)) offsets)"
  by (induction offsets arbitrary: chunks) (simp_all add: Let_def)

lemma chunk_loop_concat:
  "cs \<noteq> 0 \<Longrightarrow> chunk_loop docs cs chunks =
     Inr (chunks @ concat (map (\<lambda>doc. filter (\<lambda>w. 50 < length (strip w))
                                    (candidate_windows doc cs)) docs))"
  by (induction docs arbitrary: chunks)
     (simp_all add: py_range_def chunk_doc_filter candidate_windows_def)

lemma chunk_loop_zero:
  "chunk_loop docs 0 chunks = (if docs = [] then Inr chunks else Inl ValueError)"
  by (cases docs) (simp_all add: py_range_def)

lemma py_slice_window:
  "0 \<le> i \<Longrightarrow> 0 \<le> c \<Longrightarrow> py_slice xs i (i + c) = take (nat c) (drop (nat i) xs)"
  by (simp add: py_slice_def slice_bound_def Let_def min_def nat_add_distrib)

lemma range_list_step:
  "0 < step \<Longrightarrow> start < stop \<Longrightarrow>
   range_list start stop step = start # range_list (start + step) stop step"
  by (subst range_list.simps) simp

lemma range_list_done:
  "0 < step \<Longrightarrow> \<not> start < stop \<Longrightarrow> range_list start stop step = []"
  by (subst range_list.simps) simp

lemma concat_windows_from:
  "0 < cs \<Longrightarrow> 0 \<le> s \<Longrightarrow>
   concat (map (\<lambda>i. py_slice doc i (i + cs)) (range_list s (int (length doc)) cs))
     = drop (nat s) doc"
proof (induction s "int (length doc)" cs rule: range_list.induct)
  case (1 start step)
  show ?case
  proof (cases "start < int (length doc)")
    case True
    have "concat (map (\<lambda>i. py_slice doc i (i + step))
            (range_list (start + step) (int (length doc)) step))
          = drop (nat (start + step)) doc"
      using 1 True by simp
    moreover have "py_slice doc start (start + step) = take (nat step) (drop (nat start) doc)"
      using 1 by (simp add: py_slice_window)
    moreover have "nat (start + step) = nat step + nat start"
      using 1 by (simp add: nat_add_distrib)
    ultimately show ?thesis
      using 1 True
      by (simp add: range_list_step drop_drop [symmetric] del: drop_drop)
  next
    case False
    then show ?thesis using 1 by (simp add: range_list_done)
  qed
qed

lemma range_list_nth:
  "0 < cs \<Longrightarrow> k < length (range_list s n cs) \<Longrightarrow> range_list s n cs ! k = s + int k * cs"
proof (induction s n cs arbitrary: k rule: range_list.induct)
  case (1 start stop step)
  show ?case
  proof (cases "start < stop")
    case True
    then have eq: "range_list start stop step = start # range_list (start + step) stop step"
      using 1(3) by (simp add: range_list_step)
    show ?thesis
    proof (cases k)
      case 0
      then show ?thesis by (simp add: eq)
    next
      case (Suc j)
      then have "j < length (range_list (start + step) stop step)"
        using 1(4) eq by simp
      then have "range_list (start + step) stop step ! j = start + step + int j * step"
        using 1(1) [OF _ 1(3)] True 1(3) by simp
      then show ?thesis using Suc eq by (simp add: algebra_simps)
    qed
  next
    case False
    then have "range_list start stop step = []"
      using 1(3) by (simp add: range_list_done)
    then show ?thesis using 1(4) by simp
  qed
qed

lemma range_list_bounds:
  "0 < cs \<Longrightarrow> i \<in> set (range_list s n cs) \<Longrightarrow> s \<le> i \<and> i < n"
proof (induction s n cs rule: range_list.induct)
  case (1 start stop step)
  show ?case
  proof (cases "start < stop")
    case True
    then have "range_list start stop step = start # range_list (start + step) stop step"
      using 1(3) by (simp add: range_list_step)
    then show ?thesis using 1 True by auto
  next
    case False
    then have "range_list start stop step = []"
      using 1(3) by (simp add: range_list_done)
    then show ?thesis using 1(4) by simp
  qed
qed

lemma candidate_windows_nth:
  assumes "0 < cs" and "k < length (candidate_windows doc cs)"
  shows "candidate_windows doc cs ! k = take (nat cs) (drop (k * nat cs) doc)"
proof -
  have k: "k < length (range_list 0 (int (length doc)) cs)"
    using assms(2) by (simp add: candidate_windows_def)
  have "range_list 0 (int (length doc)) cs ! k = int k * cs"
    using range_list_nth [OF assms(1) k] by simp
  then have "candidate_windows doc cs ! k = py_slice doc (int k * cs) (int k * cs + cs)"
    using k by (simp add: candidate_windows_def)
  also have "\<dots> = take (nat cs) (drop (nat (int k * cs)) doc)"
    using assms(1) by (intro py_slice_window) simp_all
  also have "nat (int k * cs) = k * nat cs"
    using assms(1) by (simp add: nat_mult_distrib)
  finally show ?thesis .
qed

lemma candidate_windows_nonempty:
  assumes "0 < cs" and "w \<in> set (candidate_windows doc cs)"
  shows "w \<noteq> []"
proof -
  obtain i where i: "i \<in> set (range_list 0 (int (length doc)) cs)"
    and w: "w = py_slice doc i (i + cs)"
    using assms(2) by (auto simp: candidate_windows_def)
  have "0 \<le> i \<and> i < int (length doc)"
    using range_list_bounds [OF assms(1) i] .
  then show ?thesis
    using assms(1) w by (auto simp: py_slice_window)
qed

text \<open>
  C3, as stated, fails. The document "The quick brown fox jumps over the lazy dog" has 43
  characters, and the length test \<open>len(chunk.strip()) > 50\<close> discards its only window:
  the output is not the one-chunk list of the scenario.
\<close>

theorem chunk_quick_brown_fox_not_kept:
  "chunk_documents [''The quick brown fox jumps over the lazy dog''] 1000
     \<noteq> Inr [''The quick brown fox jumps over the lazy dog'']"
  by code_simp

text \<open>
  C3, amended. The document has 43 characters; with chunk size 1000 its only candidate
  window is the full document string, and the chunker returns no chunk.
\<close>

theorem chunk_quick_brown_fox_empty:
  "length ''The quick brown fox jumps over the lazy dog'' = 43 \<and>
   candidate_windows ''The quick brown fox jumps over the lazy dog'' 1000
     = [''The quick brown fox jumps over the lazy dog''] \<and>
   chunk_documents [''The quick brown fox jumps over the lazy dog''] 1000 = Inr []"
  by code_simp

text \<open>
  C7. For a chunk size above zero the inner loop of the chunker runs over the offsets
  \<open>range(0, len(doc), chunk_size)\<close> and takes one window \<open>doc[i:i + chunk_size]\<close> at each:
  it appends to its list exactly these candidate windows that pass the length test, and
  the chunker returns them document by document. The candidate windows of a document,
  taken before the length test, concatenate in order to the document itself; the window
  at index \<open>k\<close> is the slice of at most \<open>chunk_size\<close> characters that starts at offset
  \<open>k * chunk_size\<close>, and it is not empty. So the windows do not overlap and leave no
  character out.
\<close>

theorem candidate_windows_partition:
  "0 < cs \<Longrightarrow>
   py_range 0 (int (length doc)) cs = Inr (range_list 0 (int (length doc)) cs) \<and>
   chunk_doc doc cs (range_list 0 (int (length doc)) cs) chunks
     = chunks @ filter (\<lambda>w. 50 < length (strip w)) (candidate_windows doc cs) \<and>
   chunk_documents (docs @ [doc]) cs
     = Inr (concat (map (\<lambda>d. filter (\<lambda>w. 50 < length (strip w)) (candidate_windows d cs)) docs)
            @ filter (\<lambda>w. 50 < length (strip w)) (candidate_windows doc cs)) \<and>
   concat (candidate_windows doc cs) = doc \<and>
   (\<forall>k < length (candidate_windows doc cs).
      candidate_windows doc cs ! k = take (nat cs) (drop (k * nat cs) doc) \<and>
      candidate_windows doc cs ! k \<noteq> [])"
proof -
  assume cs: "0 < cs"
  have "py_range 0 (int (length doc)) cs = Inr (range_list 0 (int (length doc)) cs)"
    using cs by (simp add: py_range_def)
  moreover have "chunk_doc doc cs (range_list 0 (int (length doc)) cs) chunks
     = chunks @ filter (\<lambda>w. 50 < length (strip w)) (candidate_windows doc cs)"
    by (simp add: chunk_doc_filter candidate_windows_def)
  moreover have "chunk_documents (docs @ [doc]) cs
     = Inr (concat (map (\<lambda>d. filter (\<lambda>w. 50 < length (strip w)) (candidate_windows d cs)) docs)
            @ filter (\<lambda>w. 50 < length (strip w)) (candidate_windows doc cs))"
    using cs by (simp add: chunk_documents_def chunk_loop_concat)
  moreover have "concat (candidate_windows doc cs) = drop (nat 0) doc"
    unfolding candidate_windows_def using cs by (intro concat_windows_from) simp_all
  moreover have "candidate_windows doc cs ! k = take (nat cs) (drop (k * nat cs) doc)"
    if "k < length (candidate_windows doc cs)" for k
    using candidate_windows_nth [OF cs that] .
  moreover have "candidate_windows doc cs ! k \<noteq> []"
    if "k < length (candidate_windows doc cs)" for k
    using candidate_windows_nonempty [OF cs] that nth_mem by blast
  ultimately show ?thesis by simp
qed

theorem candidate_windows_partition_witness:
  "(0::int) < 60 \<and>
   candidate_windows (replicate 60 CHR ''a'' @ replicate 60 CHR ''b'' @ ''tail'') 60
     = [replicate 60 CHR ''a'', replicate 60 CHR ''b'', ''tail''] \<and>
   chunk_documents [replicate 60 CHR ''a'' @ replicate 60 CHR ''b'' @ ''tail''] 60
     = Inr [replicate 60 CHR ''a'', replicate 60 CHR ''b''] \<and>
   concat (candidate_windows (replicate 60 CHR ''a'' @ replicate 60 CHR ''b'' @ ''tail'') 60)
     = replicate 60 CHR ''a'' @ replicate 60 CHR ''b'' @ ''tail'' \<and>
   candidate_windows (replicate 60 CHR ''a'' @ replicate 60 CHR ''b'' @ ''tail'') 60 ! 2
     = take (nat 60) (drop (2 * nat 60) (replicate 60 CHR ''a'' @ replicate 60 CHR ''b'' @ ''tail''))"
    (is "_ \<and> candidate_windows ?doc 60 = ?ws \<and> _ = Inr ?out \<and> _ \<and> _")
proof -
  have h: "(0::int) < 60" by simp
  have e: "candidate_windows ?doc 60 = ?ws" by code_simp
  have f: "filter (\<lambda>w. 50 < length (strip w)) ?ws = ?out" by code_simp
  have k: "2 < length (candidate_windows ?doc 60)" by (simp add: e)
  note t = candidate_windows_partition [OF h, of ?doc "[]" "[]"]
  have "chunk_documents ([] @ [?doc]) 60
     = Inr (concat (map (\<lambda>d. filter (\<lambda>w. 50 < length (strip w)) (candidate_windows d 60)) [])
            @ filter (\<lambda>w. 50 < length (strip w)) (candidate_windows ?doc 60))"
    using t by (elim conjE)
  then have c: "chunk_documents [?doc] 60 = Inr ?out"
    unfolding e f by simp
  have p: "concat (candidate_windows ?doc 60) = ?doc"
    using t by (elim conjE)
  have "\<forall>k < length (candidate_windows ?doc 60).
      candidate_windows ?doc 60 ! k = take (nat 60) (drop (k * nat 60) ?doc) \<and>
      candidate_windows ?doc 60 ! k \<noteq> []"
    using t by (elim conjE)
  then have n: "candidate_windows ?doc 60 ! 2 = take (nat 60) (drop (2 * nat 60) ?doc)"
    using k by blast
  show ?thesis using h e c p n by (intro conjI)
qed

text \<open>
  C8. Whenever the chunker returns, its output is, document by document, the candidate
  windows whose stripped length is above 50, each kept as the window itself and not as
  its stripped text; so every chunk of the output has more than 50 characters after
  stripping. It returns for every chunk size other than zero.
\<close>

theorem chunk_documents_retained:
  "(cs \<noteq> 0 \<longrightarrow> (\<exists>out. chunk_documents docs cs = Inr out)) \<and>
   (\<forall>out. chunk_documents docs cs = Inr out \<longrightarrow>
      out = concat (map (\<lambda>doc. filter (\<lambda>w. 50 < length (strip w))
                                  (candidate_windows doc cs)) docs) \<and>
      (\<forall>c \<in> set out. 50 < length (strip c) \<and>
                       (\<exists>doc \<in> set docs. c \<in> set (candidate_windows doc cs))))"
proof (cases "cs = 0")
  case True
  then show ?thesis
    by (auto simp: chunk_documents_def chunk_loop_zero split: if_splits)
next
  case False
  then show ?thesis
    by (auto simp: chunk_documents_def chunk_loop_concat)
qed

theorem chunk_documents_retained_witness:
  "(64::int) \<noteq> 0 \<and>
   chunk_documents
     [replicate 3 CHR '' '' @ replicate 51 CHR ''x'' @ replicate 10 CHR '' '' @ ''short tail''] 64
     = Inr [replicate 3 CHR '' '' @ replicate 51 CHR ''x'' @ replicate 10 CHR '' ''] \<and>
   length (strip (replicate 3 CHR '' '' @ replicate 51 CHR ''x'' @ replicate 10 CHR '' '')) = 51 \<and>
   replicate 3 CHR '' '' @ replicate 51 CHR ''x'' @ replicate 10 CHR '' ''
     \<in> set (candidate_windows
         (replicate 3 CHR '' '' @ replicate 51 CHR ''x'' @ replicate 10 CHR '' '' @ ''short tail'')
         64)"
    (is "_ \<and> chunk_documents [?doc] 64 = Inr [?w] \<and> ?l \<and> ?m")
proof -
  have n: "(64::int) \<noteq> 0" by simp
  have e: "chunk_documents [?doc] 64 = Inr [?w]" by code_simp
  have l: ?l by code_simp
  have "\<forall>out. chunk_documents [?doc] 64 = Inr out \<longrightarrow>
      out = concat (map (\<lambda>doc. filter (\<lambda>w. 50 < length (strip w))
                                  (candidate_windows doc 64)) [?doc]) \<and>
      (\<forall>c \<in> set out. 50 < length (strip c) \<and>
                       (\<exists>doc \<in> set [?doc]. c \<in> set (candidate_windows doc 64)))"
    using chunk_documents_retained [of 64 "[?doc]"] by (rule conjunct2)
  then have "\<forall>c \<in> set [?w]. 50 < length (strip c) \<and>
                       (\<exists>doc \<in> set [?doc]. c \<in> set (candidate_windows doc 64))"
    using e by blast
  then have m: ?m by simp
  show ?thesis using n e l m by (intro conjI)
qed

section \<open>Properties of the retriever\<close>

lemma search_loop_scored:
  "finite qw \<Longrightarrow> search_loop qw chunks results =
     Inr (results @ map (\<lambda>c. (c, of_nat (card (qw \<inter> word_set c)) / of_nat (card qw)))
                      (filter (\<lambda>c. 0 < card (qw \<inter> word_set c)) chunks))"
proof (induction chunks arbitrary: results)
  case Nil
  then show ?case by simp
next
  case (Cons c chunks)
  have "card qw \<noteq> 0" if "0 < card (qw \<inter> word_set c)"
  proof -
    from that have "qw \<inter> word_set c \<noteq> {}" by auto
    then have "qw \<noteq> {}" by auto
    with Cons.prems show ?thesis by simp
  qed
  then show ?case
    using Cons by (simp add: Let_def truediv_def)
qed

lemma simple_search_eq:
  "simple_search q chunks m = Inr (py_slice (sort_reverse snd (scored q chunks)) 0 m)"
  by (simp add: simple_search_def Let_def search_loop_scored word_set_def scored_def)

lemma py_slice_take: "py_slice xs 0 m = take (slice_bound (length xs) m) xs"
  by (simp add: py_slice_def slice_bound_def Let_def)

lemma set_sort_reverse: "set (sort_reverse key xs) = set xs"
  by (simp add: sort_reverse_def)

lemma sort_reverse_sorted: "sorted_wrt (\<lambda>a b. key b \<le> key a) (sort_reverse key xs)"
proof -
  have "sorted (map key (sort_key key (rev xs)))" by simp
  then have "sorted_wrt (\<lambda>a b. key a \<le> key b) (sort_key key (rev xs))"
    by (simp add: sorted_map)
  then show ?thesis
    by (simp add: sort_reverse_def sorted_wrt_rev)
qed

lemma sort_reverse_stable:
  "filter (\<lambda>y. key y = k) (sort_reverse key xs) = filter (\<lambda>y. key y = k) xs"
  by (simp add: sort_reverse_def rev_filter [symmetric] sort_key_stable)

lemma length_sort_reverse: "length (sort_reverse key xs) = length xs"
  by (simp add: sort_reverse_def)

lemma filter_take_prefix: "prefix (filter P (take n xs)) (filter P xs)"
proof -
  have "filter P xs = filter P (take n xs) @ filter P (drop n xs)"
    by (metis append_take_drop_id filter_append)
  then show ?thesis by (metis prefixI)
qed


lemma finite_word_set: "finite (word_set s)"
  by (simp add: word_set_def)

lemma scored_member:
  assumes "r \<in> set (scored q chunks)"
  shows "fst r \<in> set chunks"
    and "0 < card (word_set q \<inter> word_set (fst r))"
    and "snd r = of_nat (card (word_set q \<inter> word_set (fst r))) / of_nat (card (word_set q))"
    and "0 < snd r"
proof -
  from assms obtain c where c: "c \<in> set chunks" "0 < card (word_set q \<inter> word_set c)"
    and r: "r = (c, of_nat (card (word_set q \<inter> word_set c)) / of_nat (card (word_set q)))"
    by (auto simp: scored_def)
  show "fst r \<in> set chunks" using c r by simp
  show ov: "0 < card (word_set q \<inter> word_set (fst r))" using c r by simp
  show "snd r = of_nat (card (word_set q \<inter> word_set (fst r))) / of_nat (card (word_set q))"
    using r by simp
  have "word_set q \<noteq> {}" using c(2) by auto
  then have "0 < card (word_set q)"
    using finite_word_set [of q] by (simp add: card_gt_0_iff)
  then show "0 < snd r" using c(2) r by simp
qed

lemma set_simple_search_out:
  "set (py_slice (sort_reverse snd (scored q chunks)) 0 m) \<subseteq> set (scored q chunks)"
  using set_take_subset [of _ "sort_reverse snd (scored q chunks)"]
  by (simp add: py_slice_take set_sort_reverse)

text \<open>
  C1. The search returns for every query, chunk list and \<open>max_results\<close>, and every
  pair (chunk, score) it returns has a score equal to the number of words that the query's
  word set shares with the chunk's word set, divided by the size of the query's word set;
  this score is above zero, and the chunk shares at least one word with the query, so no
  chunk with zero overlap is in the output. Every returned chunk is one of the input.
\<close>

theorem simple_search_scores:
  "\<exists>out. simple_search q chunks m = Inr out \<and>
     (\<forall>r \<in> set out.
        snd r = of_nat (card (word_set q \<inter> word_set (fst r))) / of_nat (card (word_set q)) \<and>
        0 < snd r \<and>
        0 < card (word_set q \<inter> word_set (fst r)) \<and>
        fst r \<in> set chunks)"
proof (intro exI conjI ballI)
  show "simple_search q chunks m = Inr (py_slice (sort_reverse snd (scored q chunks)) 0 m)"
    by (rule simple_search_eq)
next
  fix r assume "r \<in> set (py_slice (sort_reverse snd (scored q chunks)) 0 m)"
  then have r: "r \<in> set (scored q chunks)"
    using set_simple_search_out by blast
  show "snd r = of_nat (card (word_set q \<inter> word_set (fst r))) / of_nat (card (word_set q))"
    using scored_member(3) [OF r] .
  show "0 < snd r" using scored_member(4) [OF r] .
  show "0 < card (word_set q \<inter> word_set (fst r))" using scored_member(2) [OF r] .
  show "fst r \<in> set chunks" using scored_member(1) [OF r] .
qed

theorem simple_search_scores_witness:
  "simple_search ''brown fox'' [''The quick brown fox jumps'', ''elephant'', ''a FOX''] 4
     = Inr [(''The quick brown fox jumps'', 1), (''a FOX'', 1 / 2)] \<and>
   (1 / 2 :: rat) = of_nat (card (word_set ''brown fox'' \<inter> word_set ''a FOX''))
                      / of_nat (card (word_set ''brown fox'')) \<and>
   0 < card (word_set ''brown fox'' \<inter> word_set ''a FOX'') \<and>
   card (word_set ''brown fox'' \<inter> word_set ''elephant'') = 0"
proof -
  let ?chunks = "[''The quick brown fox jumps'', ''elephant'', ''a FOX'']"
  have e: "simple_search ''brown fox'' ?chunks 4
             = Inr [(''The quick brown fox jumps'', 1), (''a FOX'', 1 / 2)]"
    by code_simp
  have z: "card (word_set ''brown fox'' \<inter> word_set ''elephant'') = 0"
    by code_simp
  obtain out where o: "simple_search ''brown fox'' ?chunks 4 = Inr out"
    and b: "\<forall>r \<in> set out.
        snd r = of_nat (card (word_set ''brown fox'' \<inter> word_set (fst r)))
                  / of_nat (card (word_set ''brown fox'')) \<and>
        0 < snd r \<and>
        0 < card (word_set ''brown fox'' \<inter> word_set (fst r)) \<and>
        fst r \<in> set ?chunks"
    using simple_search_scores [of "''brown fox''" ?chunks 4] by blast
  have out: "out = [(''The quick brown fox jumps'', 1), (''a FOX'', 1 / 2)]"
    using o e by simp
  have "(''a FOX'', 1 / 2 :: rat) \<in> set out" unfolding out by simp
  with b have "snd (''a FOX'', 1 / 2 :: rat)
        = of_nat (card (word_set ''brown fox'' \<inter> word_set (fst (''a FOX'', 1 / 2 :: rat))))
                  / of_nat (card (word_set ''brown fox'')) \<and>
        0 < card (word_set ''brown fox'' \<inter> word_set (fst (''a FOX'', 1 / 2 :: rat)))"
    by blast
  then show ?thesis using e z by simp
qed

lemma map_fst_filter_scored:
  "map fst (filter (\<lambda>r. snd r = s) (scored q chunks))
     = filter (\<lambda>c. 0 < card (word_set q \<inter> word_set c) \<and>
                  of_nat (card (word_set q \<inter> word_set c)) / of_nat (card (word_set q)) = s)
         chunks"
  by (induction chunks) (simp_all add: scored_def)

text \<open>
  C4. The output of the search is sorted in non-increasing order of score, and for every
  score the returned chunks with that score are, in output order, an initial part of the
  input chunks with that score in input order: chunks with equal scores keep the relative
  order they had in the input.
\<close>

theorem simple_search_sorted_stable:
  "\<exists>out. simple_search q chunks m = Inr out \<and>
     sorted_wrt (\<lambda>a b. snd b \<le> snd a) out \<and>
     (\<forall>s. prefix (map fst (filter (\<lambda>r. snd r = s) out))
            (filter (\<lambda>c. 0 < card (word_set q \<inter> word_set c) \<and>
                         of_nat (card (word_set q \<inter> word_set c)) / of_nat (card (word_set q)) = s)
               chunks))"
proof (intro exI conjI allI)
  let ?sorted = "sort_reverse snd (scored q chunks)"
  let ?out = "py_slice ?sorted 0 m"
  show "simple_search q chunks m = Inr ?out"
    by (rule simple_search_eq)
  have "sorted_wrt (\<lambda>a b. snd b \<le> snd a) ?sorted"
    by (rule sort_reverse_sorted)
  then show "sorted_wrt (\<lambda>a b. snd b \<le> snd a) ?out"
    by (simp add: py_slice_take sorted_wrt_take)
  fix s
  have "prefix (filter (\<lambda>r. snd r = s) ?out) (filter (\<lambda>r. snd r = s) ?sorted)"
    by (simp add: py_slice_take filter_take_prefix)
  then have "prefix (filter (\<lambda>r. snd r = s) ?out) (filter (\<lambda>r. snd r = s) (scored q chunks))"
    by (simp add: sort_reverse_stable)
  then have "prefix (map fst (filter (\<lambda>r. snd r = s) ?out))
               (map fst (filter (\<lambda>r. snd r = s) (scored q chunks)))"
    by (rule map_mono_prefix)
  then show "prefix (map fst (filter (\<lambda>r. snd r = s) ?out))
            (filter (\<lambda>c. 0 < card (word_set q \<inter> word_set c) \<and>
                         of_nat (card (word_set q \<inter> word_set c)) / of_nat (card (word_set q)) = s)
               chunks)"
    by (simp add: map_fst_filter_scored)
qed

theorem simple_search_sorted_stable_witness:
  "simple_search ''quick fox'' [''a fox'', ''quick fox'', ''b fox'', ''dog'', ''quick''] 3
     = Inr [(''quick fox'', 1), (''a fox'', 1 / 2), (''b fox'', 1 / 2)] \<and>
   sorted_wrt (\<lambda>a b. snd b \<le> snd a)
     [(''quick fox'', 1 :: rat), (''a fox'', 1 / 2), (''b fox'', 1 / 2)] \<and>
   prefix (map fst (filter (\<lambda>r. snd r = 1 / 2)
             [(''quick fox'', 1 :: rat), (''a fox'', 1 / 2), (''b fox'', 1 / 2)]))
     [''a fox'', ''b fox'', ''quick'']"
proof -
  let ?chunks = "[''a fox'', ''quick fox'', ''b fox'', ''dog'', ''quick'']"
  let ?res = "[(''quick fox'', 1 :: rat), (''a fox'', 1 / 2), (''b fox'', 1 / 2)]"
  have e: "simple_search ''quick fox'' ?chunks 3 = Inr ?res"
    by code_simp
  have f: "filter (\<lambda>c. 0 < card (word_set ''quick fox'' \<inter> word_set c) \<and>
                         of_nat (card (word_set ''quick fox'' \<inter> word_set c))
                           / of_nat (card (word_set ''quick fox'')) = (1 / 2 :: rat)) ?chunks
           = [''a fox'', ''b fox'', ''quick'']"
    by code_simp
  obtain out where o: "simple_search ''quick fox'' ?chunks 3 = Inr out"
    and s: "sorted_wrt (\<lambda>a b. snd b \<le> snd a) out"
    and p: "\<forall>s. prefix (map fst (filter (\<lambda>r. snd r = s) out))
            (filter (\<lambda>c. 0 < card (word_set ''quick fox'' \<inter> word_set c) \<and>
                         of_nat (card (word_set ''quick fox'' \<inter> word_set c))
                           / of_nat (card (word_set ''quick fox'')) = s) ?chunks)"
    using simple_search_sorted_stable [of "''quick fox''" ?chunks 3] by blast
  have out: "out = ?res" using o e by simp
  from p have "prefix (map fst (filter (\<lambda>r. snd r = 1 / 2) out))
            (filter (\<lambda>c. 0 < card (word_set ''quick fox'' \<inter> word_set c) \<and>
                         of_nat (card (word_set ''quick fox'' \<inter> word_set c))
                           / of_nat (card (word_set ''quick fox'')) = (1 / 2 :: rat)) ?chunks)"
    by (rule spec)
  then have "prefix (map fst (filter (\<lambda>r. snd r = 1 / 2) ?res)) [''a fox'', ''b fox'', ''quick'']"
    unfolding out f .
  then show ?thesis using e s unfolding out by (intro conjI)
qed


lemma length_scored:
  "length (scored q chunks) = length (filter (\<lambda>c. 0 < card (word_set q \<inter> word_set c)) chunks)"
  by (simp add: scored_def)

text \<open>
  C5, as stated, fails for a negative \<open>max_results\<close>: the slice
  \<open>results[:max_results]\<close> then drops results from the end. With two matching chunks
  and \<open>max_results = -1\<close> one pair is returned, which is not \<open>min(-1, 2)\<close>.
\<close>

theorem simple_search_negative_max_results:
  "card (word_set ''fox'' \<inter> word_set ''a fox'') = 1 \<and>
   card (word_set ''fox'' \<inter> word_set ''the fox'') = 1 \<and>
   simple_search ''fox'' [''a fox'', ''the fox''] (- 1) = Inr [(''a fox'', 1)] \<and>
   int (length [(''a fox'', 1 :: rat)]) \<noteq> min (- 1) 2"
  by code_simp

text \<open>
  C5, amended. For a \<open>max_results\<close> that is not negative the number of returned pairs is
  the minimum of \<open>max_results\<close> and the number of chunks that share a word with the
  query; for a negative \<open>max_results\<close> it is that number plus \<open>max_results\<close>, or zero
  when the sum is negative.
\<close>

theorem simple_search_count:
  "\<exists>out. simple_search q chunks m = Inr out \<and>
     (0 \<le> m \<longrightarrow>
        int (length out)
          = min m (int (length (filter (\<lambda>c. 0 < card (word_set q \<inter> word_set c)) chunks)))) \<and>
     (m < 0 \<longrightarrow>
        int (length out)
          = max 0 (int (length (filter (\<lambda>c. 0 < card (word_set q \<inter> word_set c)) chunks)) + m))"
proof -
  define n where "n = length (filter (\<lambda>c. 0 < card (word_set q \<inter> word_set c)) chunks)"
  let ?out = "py_slice (sort_reverse snd (scored q chunks)) 0 m"
  have eq: "simple_search q chunks m = Inr ?out"
    by (rule simple_search_eq)
  have len: "length ?out = min (slice_bound n m) n"
    by (simp add: py_slice_take length_sort_reverse length_scored n_def)
  have nonneg: "int (length ?out) = min m (int n)" if "0 \<le> m"
    using that unfolding len slice_bound_def by auto
  have neg: "int (length ?out) = max 0 (int n + m)" if "m < 0"
    using that unfolding len slice_bound_def by auto
  show ?thesis
    using eq nonneg neg unfolding n_def by blast
qed

theorem simple_search_count_witness:
  "(0::int) \<le> 2 \<and>
   simple_search ''fox'' [''a fox'', ''dog'', ''the fox'', ''fox''] 2
     = Inr [(''a fox'', 1), (''the fox'', 1)] \<and>
   length (filter (\<lambda>c. 0 < card (word_set ''fox'' \<inter> word_set c))
             [''a fox'', ''dog'', ''the fox'', ''fox'']) = 3 \<and>
   int (length [(''a fox'', 1 :: rat), (''the fox'', 1)]) = min 2 (int 3)"
proof -
  let ?chunks = "[''a fox'', ''dog'', ''the fox'', ''fox'']"
  have h: "(0::int) \<le> 2" by simp
  have e: "simple_search ''fox'' ?chunks 2 = Inr [(''a fox'', 1), (''the fox'', 1)]"
    by code_simp
  have n: "length (filter (\<lambda>c. 0 < card (word_set ''fox'' \<inter> word_set c)) ?chunks) = 3"
    by code_simp
  obtain out where o: "simple_search ''fox'' ?chunks 2 = Inr out"
    and c: "0 \<le> (2::int) \<longrightarrow> int (length out)
          = min 2 (int (length (filter (\<lambda>c. 0 < card (word_set ''fox'' \<inter> word_set c)) ?chunks)))"
    using simple_search_count [of "''fox''" ?chunks 2] by blast
  have out: "out = [(''a fox'', 1), (''the fox'', 1)]" using o e by simp
  from c h have "int (length out)
          = min 2 (int (length (filter (\<lambda>c. 0 < card (word_set ''fox'' \<inter> word_set c)) ?chunks)))"
    by (rule mp)
  then have "int (length [(''a fox'', 1 :: rat), (''the fox'', 1)]) = min 2 (int 3)"
    unfolding out n .
  then show ?thesis using h e n by (intro conjI)
qed

lemma lower_char_space: "isspace c \<Longrightarrow> lower_char c = c"
  by (auto simp: isspace_def lower_char_def Let_def)

lemma split_run_spaces: "\<forall>c \<in> set s. isspace c \<Longrightarrow> split_run [] s = []"
  by (induction s) simp_all

lemma word_set_spaces: "\<forall>c \<in> set s. isspace c \<Longrightarrow> word_set s = {}"
proof -
  assume a: "\<forall>c \<in> set s. isspace c"
  then have "map lower_char s = s"
    by (simp add: lower_char_space map_idI)
  then show ?thesis
    using a by (simp add: word_set_def lower_def split_ws_def split_run_spaces)
qed

text \<open>
  C6. When the word set of the query is empty the search returns the empty list for every
  chunk list; a query of whitespace only (the empty string among them) has an empty word
  set. The search never ends in \<open>ZeroDivisionError\<close>: the division is reached only with
  an overlap above zero, and then the query's word set is not empty.
\<close>

theorem simple_search_empty_query:
  "(word_set q = {} \<longrightarrow> simple_search q chunks m = Inr []) \<and>
   ((\<forall>c \<in> set q. isspace c) \<longrightarrow> word_set q = {}) \<and>
   simple_search q chunks m \<noteq> Inl ZeroDivisionError"
proof (intro conjI impI)
  show "simple_search q chunks m = Inr []" if "word_set q = {}"
    using that by (simp add: simple_search_eq scored_def sort_reverse_def py_slice_def)
  show "word_set q = {}" if "\<forall>c \<in> set q. isspace c"
    using that by (rule word_set_spaces)
  show "simple_search q chunks m \<noteq> Inl ZeroDivisionError"
    by (simp add: simple_search_eq)
qed

theorem simple_search_empty_query_witness:
  "word_set '' \<newline> '' = {} \<and>
   simple_search '' \<newline> '' [''a fox'', '' \<newline> '', []] 4 = Inr [] \<and>
   simple_search [] [''a fox'', []] 4 = Inr []"
proof -
  have w: "word_set '' \<newline> '' = {}" by code_simp
  have w0: "word_set [] = {}" by code_simp
  have "simple_search '' \<newline> '' [''a fox'', '' \<newline> '', []] 4 = Inr []"
    using simple_search_empty_query [of "'' \<newline> ''" "[''a fox'', '' \<newline> '', []]" 4] w
    by blast
  moreover have "simple_search [] [''a fox'', []] 4 = Inr []"
    using simple_search_empty_query [of "[]" "[''a fox'', []]" 4] w0 by blast
  ultimately show ?thesis using w by (intro conjI)
qed

section \<open>Properties of the decimal digits\<close>

lemma digit_char_code: "d < 10 \<Longrightarrow> (of_char (digit_char d) :: nat) = 48 + d"
  by (simp add: digit_char_def)

lemma str_nat_digits:
  "c \<in> set (str_nat n) \<Longrightarrow> 48 \<le> (of_char c :: nat) \<and> (of_char c :: nat) \<le> 57"
proof (induction n rule: str_nat.induct)
  case (1 n)
  show ?case
  proof (cases "n < 10")
    case True
    then have "c = digit_char n"
      using "1.prems" by (subst (asm) str_nat.simps) simp
    then show ?thesis using digit_char_code [OF True] True by simp
  next
    case False
    then have "c \<in> set (str_nat (n div 10)) \<or> c = digit_char (n mod 10)"
      using "1.prems" by (subst (asm) str_nat.simps) auto
    then show ?thesis
    proof
      assume "c \<in> set (str_nat (n div 10))"
      then show ?thesis using "1.IH" False by simp
    next
      assume "c = digit_char (n mod 10)"
      then show ?thesis using digit_char_code [of "n mod 10"] by simp
    qed
  qed
qed

lemma str_nat_nonempty: "str_nat n \<noteq> []"
  by (subst str_nat.simps) simp

lemma digits_value_snoc:
  "digits_value (s @ [c]) = 10 * digits_value s + ((of_char c :: nat) - 48)"
  by (simp add: digits_value_def)

lemma digits_value_str_nat: "digits_value (str_nat n) = n"
proof (induction n rule: str_nat.induct)
  case (1 n)
  show ?case
  proof (cases "n < 10")
    case True
    then have "str_nat n = [digit_char n]" by (subst str_nat.simps) simp
    then show ?thesis
      using digit_char_code [OF True] by (simp add: digits_value_def)
  next
    case False
    have m: "n mod 10 < 10" by simp
    from False have "str_nat n = str_nat (n div 10) @ [digit_char (n mod 10)]"
      by (subst str_nat.simps) simp
    then have "digits_value (str_nat n) = 10 * (n div 10) + n mod 10"
      using "1.IH" [OF False] digit_char_code [OF m] by (simp add: digits_value_snoc)
    then show ?thesis by simp
  qed
qed

lemma digits_value_two_places:
  "digits_value (str_nat (n div 100) @ [digit_char (n div 10 mod 10), digit_char (n mod 10)]) = n"
proof -
  have a: "n div 10 mod 10 < 10" and b: "n mod 10 < 10" by simp_all
  have "digits_value (str_nat (n div 100) @ [digit_char (n div 10 mod 10), digit_char (n mod 10)])
          = digits_value ((str_nat (n div 100) @ [digit_char (n div 10 mod 10)])
              @ [digit_char (n mod 10)])"
    by simp
  also have "\<dots> = 10 * (10 * (n div 100) + n div 10 mod 10) + n mod 10"
    unfolding digits_value_snoc digits_value_str_nat digit_char_code [OF a] digit_char_code [OF b]
    by simp
  also have "\<dots> = n"
  proof -
    have "n div 100 = n div 10 div 10" by (simp add: div_mult2_eq)
    then have "10 * (n div 100) + n div 10 mod 10 = n div 10" by simp
    then show ?thesis by simp
  qed
  finally show ?thesis .
qed

section \<open>Properties of the context formatter\<close>

lemma round_half_even_cases:
  "round_half_even x = \<lfloor>x\<rfloor> \<and> x - of_int \<lfloor>x\<rfloor> \<le> 1 / 2 \<or>
   round_half_even x = \<lfloor>x\<rfloor> + 1 \<and> 1 / 2 \<le> x - of_int \<lfloor>x\<rfloor>"
  unfolding round_half_even_def Let_def by (simp only: split: if_split) auto

lemma round_half_even_near: "\<bar>of_int (round_half_even x) - x\<bar> \<le> 1 / 2"
proof -
  have lo: "of_int \<lfloor>x\<rfloor> \<le> x" by (rule of_int_floor_le)
  have hi: "x < of_int \<lfloor>x\<rfloor> + 1" by linarith
  from round_half_even_cases [of x] show ?thesis
  proof
    assume a: "round_half_even x = \<lfloor>x\<rfloor> \<and> x - of_int \<lfloor>x\<rfloor> \<le> 1 / 2"
    then have "of_int (round_half_even x) - x = of_int \<lfloor>x\<rfloor> - x" by simp
    then show ?thesis using a lo by linarith
  next
    assume a: "round_half_even x = \<lfloor>x\<rfloor> + 1 \<and> 1 / 2 \<le> x - of_int \<lfloor>x\<rfloor>"
    then have "of_int (round_half_even x) - x = of_int \<lfloor>x\<rfloor> + 1 - x" by simp
    then show ?thesis using a hi by linarith
  qed
qed

lemma round_half_even_nonneg: "0 \<le> x \<Longrightarrow> 0 \<le> round_half_even x"
proof -
  assume "0 \<le> x"
  then have "0 \<le> \<lfloor>x\<rfloor>" by simp
  then show ?thesis using round_half_even_cases [of x] by linarith
qed

lemma near_hundredth:
  fixes n :: nat and x :: rat
  assumes "\<bar>(of_nat n :: rat) - x * 100\<bar> \<le> 1 / 2"
  shows "\<bar>of_nat n / 100 - x\<bar> \<le> 1 / 200"
proof -
  define y where "y = (of_nat n :: rat) - x * 100"
  have e: "of_nat n / 100 - x = y / 100" by (simp add: y_def field_simps)
  have "\<bar>y / 100\<bar> = \<bar>y\<bar> / \<bar>100\<bar>" by (rule abs_divide)
  then have "\<bar>y / 100\<bar> = \<bar>y\<bar> / 100" by (simp only: abs_numeral)
  moreover have "\<bar>y\<bar> \<le> 1 / 2" using assms by (simp only: y_def)
  ultimately have "\<bar>y / 100\<bar> \<le> 1 / 200" by linarith
  then show ?thesis by (simp only: e)
qed

lemma format_2f_shape:
  "\<exists>n. format_2f x = (if x < 0 then ''-'' else []) @ str_nat (n div 100) @ ''.''
              @ [digit_char (n div 10 mod 10), digit_char (n mod 10)] \<and>
       \<bar>of_nat n / 100 - \<bar>x\<bar>\<bar> \<le> 1 / 200"
proof -
  define n where "n = nat (round_half_even (\<bar>x\<bar> * 100))"
  have "0 \<le> round_half_even (\<bar>x\<bar> * 100)"
    by (rule round_half_even_nonneg) simp
  then have "(of_nat n :: rat) = of_int (round_half_even (\<bar>x\<bar> * 100))"
    by (simp add: n_def)
  then have "\<bar>(of_nat n :: rat) - \<bar>x\<bar> * 100\<bar> \<le> 1 / 2"
    using round_half_even_near [of "\<bar>x\<bar> * 100"] by (simp only:)
  then have near: "\<bar>of_nat n / 100 - \<bar>x\<bar>\<bar> \<le> 1 / 200"
    by (rule near_hundredth)
  have "format_2f x = (if x < 0 then ''-'' else []) @ str_nat (n div 100) @ ''.''
              @ [digit_char (n div 10 mod 10), digit_char (n mod 10)]"
    unfolding format_2f_def Let_def n_def by (rule refl)
  then show ?thesis using near by blast
qed

lemma round_half_even_tie:
  "x = of_int k + 1 / 2 \<Longrightarrow> round_half_even x = (if even k then k else k + 1)"
proof -
  assume x: "x = of_int k + 1 / 2"
  have "\<lfloor>x\<rfloor> = k" by (rule floor_unique) (simp_all add: x)
  then show ?thesis by (simp add: round_half_even_def Let_def x)
qed

lemma round_half_even_below:
  "of_int k \<le> x \<Longrightarrow> x < of_int k + 1 / 2 \<Longrightarrow> round_half_even x = k"
proof -
  assume lo: "of_int k \<le> x" and hi: "x < of_int k + 1 / 2"
  have "\<lfloor>x\<rfloor> = k" using lo hi by (intro floor_unique) simp_all
  then show ?thesis using hi by (simp add: round_half_even_def Let_def)
qed

lemma round_half_even_above:
  "of_int k + 1 / 2 < x \<Longrightarrow> x < of_int k + 1 \<Longrightarrow> round_half_even x = k + 1"
proof -
  assume lo: "of_int k + 1 / 2 < x" and hi: "x < of_int k + 1"
  have "\<lfloor>x\<rfloor> = k" using lo hi by (intro floor_unique) simp_all
  then show ?thesis using lo by (simp add: round_half_even_def Let_def)
qed

lemma round_eighth: "round_half_even (\<bar>1 / 8\<bar> * 100) = 12"
  using round_half_even_tie [of "\<bar>1 / 8\<bar> * 100" 12] by simp

lemma round_three_eighths: "round_half_even (\<bar>3 / 8\<bar> * 100) = 38"
  using round_half_even_tie [of "\<bar>3 / 8\<bar> * 100" 37] by simp

lemma round_negative: "round_half_even (\<bar>- 1 / 1024\<bar> * 100) = 0"
  using round_half_even_below [of 0 "\<bar>- 1 / 1024\<bar> * 100"] by simp

lemma round_large: "round_half_even (\<bar>21 / 8\<bar> * 100) = 262"
  using round_half_even_tie [of "\<bar>21 / 8\<bar> * 100" 262] by simp

lemma round_half: "round_half_even (\<bar>1 / 2\<bar> * 100) = 50"
  using round_half_even_below [of 50 "\<bar>1 / 2\<bar> * 100"] by simp

lemma round_two_thirds: "round_half_even (\<bar>2 / 3\<bar> * 100) = 67"
  using round_half_even_above [of 66 "\<bar>2 / 3\<bar> * 100"] by simp

lemma format_2f_half: "format_2f (1 / 2) = ''0.50''"
proof -
  have "format_2f (1 / 2)
          = str_nat (50 div 100) @ ''.'' @ [digit_char (50 div 10 mod 10), digit_char (50 mod 10)]"
    unfolding format_2f_def round_half Let_def by simp
  also have "\<dots> = ''0.50''" by code_simp
  finally show ?thesis .
qed

lemma format_2f_eighth: "format_2f (1 / 8) = ''0.12''"
proof -
  have "format_2f (1 / 8)
          = str_nat (12 div 100) @ ''.'' @ [digit_char (12 div 10 mod 10), digit_char (12 mod 10)]"
    unfolding format_2f_def round_eighth Let_def by simp
  also have "\<dots> = ''0.12''" by code_simp
  finally show ?thesis .
qed

lemma format_2f_three_eighths: "format_2f (3 / 8) = ''0.38''"
proof -
  have "format_2f (3 / 8)
          = str_nat (38 div 100) @ ''.'' @ [digit_char (38 div 10 mod 10), digit_char (38 mod 10)]"
    unfolding format_2f_def round_three_eighths Let_def by simp
  also have "\<dots> = ''0.38''" by code_simp
  finally show ?thesis .
qed

lemma format_2f_negative: "format_2f (- 1 / 1024) = ''-0.00''"
proof -
  have "format_2f (- 1 / 1024)
          = ''-'' @ str_nat (0 div 100) @ ''.'' @ [digit_char (0 div 10 mod 10), digit_char (0 mod 10)]"
    unfolding format_2f_def round_negative Let_def by simp
  also have "\<dots> = ''-0.00''" by code_simp
  finally show ?thesis .
qed

lemma format_2f_large: "format_2f (21 / 8) = ''2.62''"
proof -
  have "format_2f (21 / 8)
          = str_nat (262 div 100) @ ''.'' @ [digit_char (262 div 10 mod 10), digit_char (262 mod 10)]"
    unfolding format_2f_def round_large Let_def by simp
  also have "\<dots> = ''2.62''" by code_simp
  finally show ?thesis .
qed

lemma str_nat_1: "str_nat (Suc 0) = ''1''"
  by code_simp

lemma str_nat_2: "str_nat 2 = ''2''"
  by code_simp

lemma display_chunk_take:
  "(if 500 < length chunk then py_slice chunk 0 500 @ ''...'' else chunk)
     = (if 500 < length chunk then take 500 chunk @ ''...'' else chunk)"
  by (simp add: py_slice_take slice_bound_def)

lemma format_loop_step:
  "format_loop i (r # rs) ctx = format_loop (Suc i) rs (ctx @ context_entry i r)"
proof -
  obtain chunk score where r: "r = (chunk, score)" by (cases r)
  show ?thesis
    unfolding r format_loop.simps Let_def display_chunk_take context_entry_def fst_conv snd_conv
    by (simp only: append_assoc Suc_eq_plus1)
qed

lemma format_loop_entries:
  "format_loop i rs ctx =
     ctx @ concat (map (\<lambda>(k, r). context_entry k r) (List.enumerate i rs))"
proof (induction rs arbitrary: i ctx)
  case Nil
  then show ?case by simp
next
  case (Cons r rs)
  show ?case
    unfolding format_loop_step Cons.IH by simp
qed

text \<open>
  C9. The formatter returns the sentinel "No relevant information found in the documents."
  exactly when the result list is empty. Otherwise its output is the opening line followed,
  for each result in order and with ranks counted from 1, by one entry: the header with
  "Document", the rank in decimal and the score formatted to two decimal places, then the
  chunk cut to its first 500 characters with "..." appended if and only if it has more
  than 500 characters, then a blank line. The text of the rank denotes the rank. The text
  of a score is a minus sign when the score is below zero, then decimal digits, a point
  and exactly two more digits, and the number of hundredths these digits denote is within
  half a hundredth of the absolute value of the score.
\<close>

theorem format_context_entries:
  "(format_context rs = ''No relevant information found in the documents.'' \<longleftrightarrow> rs = []) \<and>
   (rs \<noteq> [] \<longrightarrow>
      format_context rs =
        ''Based on the following information from your documents:\<newline>\<newline>''
          @ concat (map (\<lambda>(i, r). context_entry i r) (List.enumerate 1 rs))) \<and>
   (\<forall>i r. context_entry i r =
      ''Document '' @ str_nat i @ '' (relevance: '' @ format_2f (snd r) @ ''):\<newline>''
        @ (if 500 < length (fst r) then take 500 (fst r) @ ''...'' else fst r)
        @ ''\<newline>\<newline>'') \<and>
   (\<forall>i. digits_value (str_nat i) = i) \<and>
   (\<forall>s. \<exists>whole d1 d2.
      format_2f s = (if s < 0 then ''-'' else []) @ whole @ ''.'' @ [d1, d2] \<and>
      whole \<noteq> [] \<and>
      (\<forall>c \<in> set (whole @ [d1, d2]). 48 \<le> (of_char c :: nat) \<and> (of_char c :: nat) \<le> 57) \<and>
      \<bar>of_nat (digits_value (whole @ [d1, d2])) / 100 - \<bar>s\<bar>\<bar> \<le> 1 / 200)"
proof (intro conjI allI)
  show "format_context rs = ''No relevant information found in the documents.'' \<longleftrightarrow> rs = []"
    by (simp add: format_context_def format_loop_entries)
  show "rs \<noteq> [] \<longrightarrow>
      format_context rs =
        ''Based on the following information from your documents:\<newline>\<newline>''
          @ concat (map (\<lambda>(i, r). context_entry i r) (List.enumerate 1 rs))"
    by (simp add: format_context_def format_loop_entries)
  show "digits_value (str_nat i) = i" for i
    by (rule digits_value_str_nat)
  show "context_entry i r =
      ''Document '' @ str_nat i @ '' (relevance: '' @ format_2f (snd r) @ ''):\<newline>''
        @ (if 500 < length (fst r) then take 500 (fst r) @ ''...'' else fst r)
        @ ''\<newline>\<newline>''" for i r
    by (rule context_entry_def)
  show "\<exists>whole d1 d2.
      format_2f s = (if s < 0 then ''-'' else []) @ whole @ ''.'' @ [d1, d2] \<and>
      whole \<noteq> [] \<and>
      (\<forall>c \<in> set (whole @ [d1, d2]). 48 \<le> (of_char c :: nat) \<and> (of_char c :: nat) \<le> 57) \<and>
      \<bar>of_nat (digits_value (whole @ [d1, d2])) / 100 - \<bar>s\<bar>\<bar> \<le> 1 / 200" for s
  proof -
    obtain n where f: "format_2f s = (if s < 0 then ''-'' else []) @ str_nat (n div 100) @ ''.''
              @ [digit_char (n div 10 mod 10), digit_char (n mod 10)]"
      and near: "\<bar>of_nat n / 100 - \<bar>s\<bar>\<bar> \<le> 1 / 200"
      using format_2f_shape [of s] by blast
    have a: "n div 10 mod 10 < 10" and b: "n mod 10 < 10" by simp_all
    have "\<forall>c \<in> set (str_nat (n div 100) @ [digit_char (n div 10 mod 10), digit_char (n mod 10)]).
            48 \<le> (of_char c :: nat) \<and> (of_char c :: nat) \<le> 57"
      using str_nat_digits [of _ "n div 100"] digit_char_code [OF a] digit_char_code [OF b] a b
      by auto
    moreover have "\<bar>of_nat (digits_value (str_nat (n div 100)
                      @ [digit_char (n div 10 mod 10), digit_char (n mod 10)])) / 100 - \<bar>s\<bar>\<bar>
                     \<le> 1 / 200"
      unfolding digits_value_two_places using near .
    ultimately show ?thesis
      using f str_nat_nonempty [of "n div 100"] by blast
  qed
qed

theorem format_context_entries_witness:
  "[(''abc'', 1 / 2 :: rat), (replicate 501 CHR ''x'', 1 / 8)] \<noteq> [] \<and>
   format_context [(''abc'', 1 / 2), (replicate 501 CHR ''x'', 1 / 8)]
     = ''Based on the following information from your documents:\<newline>\<newline>''
       @ ''Document 1 (relevance: 0.50):\<newline>abc\<newline>\<newline>''
       @ ''Document 2 (relevance: 0.12):\<newline>'' @ replicate 500 CHR ''x'' @ ''...''
       @ ''\<newline>\<newline>'' \<and>
   format_2f (1 / 8) = ''0.12'' \<and> format_2f (3 / 8) = ''0.38'' \<and>
   format_2f (- 1 / 1024) = ''-0.00'' \<and> format_2f (21 / 8) = ''2.62''"
proof -
  let ?rs = "[(''abc'', 1 / 2 :: rat), (replicate 501 CHR ''x'', 1 / 8)]"
  have n: "?rs \<noteq> []" by simp
  have e1: "context_entry 1 (''abc'', 1 / 2) = ''Document 1 (relevance: 0.50):\<newline>abc\<newline>\<newline>''"
    by (simp add: context_entry_def format_2f_half str_nat_1)
  have e2: "context_entry 2 (replicate 501 CHR ''x'', 1 / 8)
          = ''Document 2 (relevance: 0.12):\<newline>'' @ replicate 500 CHR ''x'' @ ''...''
              @ ''\<newline>\<newline>''"
    by (simp add: context_entry_def format_2f_eighth str_nat_2)
  have "List.enumerate 1 ?rs = [(1, (''abc'', 1 / 2)), (2, (replicate 501 CHR ''x'', 1 / 8))]"
    by (simp add: enumerate_simps)
  then have e: "concat (map (\<lambda>(i, r). context_entry i r) (List.enumerate 1 ?rs))
        = ''Document 1 (relevance: 0.50):\<newline>abc\<newline>\<newline>''
       @ ''Document 2 (relevance: 0.12):\<newline>'' @ replicate 500 CHR ''x'' @ ''...''
       @ ''\<newline>\<newline>''"
    by (simp only: list.map prod.case concat.simps e1 e2 append_Nil2)
  have "?rs \<noteq> [] \<longrightarrow> format_context ?rs =
        ''Based on the following information from your documents:\<newline>\<newline>''
          @ concat (map (\<lambda>(i, r). context_entry i r) (List.enumerate 1 ?rs))"
    using format_context_entries [of ?rs] by (elim conjE)
  then have "format_context ?rs =
        ''Based on the following information from your documents:\<newline>\<newline>''
          @ concat (map (\<lambda>(i, r). context_entry i r) (List.enumerate 1 ?rs))"
    using n by (rule mp)
  then have "format_context ?rs
     = ''Based on the following information from your documents:\<newline>\<newline>''
       @ ''Document 1 (relevance: 0.50):\<newline>abc\<newline>\<newline>''
       @ ''Document 2 (relevance: 0.12):\<newline>'' @ replicate 500 CHR ''x'' @ ''...''
       @ ''\<newline>\<newline>''"
    unfolding e .
  then show ?thesis
    using n format_2f_eighth format_2f_three_eighths format_2f_negative format_2f_large
    by (intro conjI)
qed

section \<open>Properties of the persisted chunk file\<close>

lemma lstrip_hd: "lstrip s \<noteq> [] \<Longrightarrow> \<not> isspace (hd (lstrip s))"
  unfolding lstrip_def by (rule hd_dropWhile)

lemma rstrip_last: "rstrip s \<noteq> [] \<Longrightarrow> \<not> isspace (last (rstrip s))"
  unfolding rstrip_def by (simp add: last_rev hd_dropWhile)

lemma rstrip_prefix: "s = rstrip s @ rev (takeWhile isspace (rev s))"
proof -
  have "rstrip s @ rev (takeWhile isspace (rev s))
          = rev (takeWhile isspace (rev s) @ dropWhile isspace (rev s))"
    by (simp only: rstrip_def rev_append)
  also have "\<dots> = s"
    by (simp only: takeWhile_dropWhile_id rev_rev_ident)
  finally show ?thesis by simp
qed

lemma rstrip_hd: "rstrip s \<noteq> [] \<Longrightarrow> hd (rstrip s) = hd s"
  using rstrip_prefix [of s] by (metis hd_append2)

lemma strip_ends:
  assumes "strip s \<noteq> []"
  shows "\<not> isspace (hd (strip s))" and "\<not> isspace (last (strip s))"
proof -
  have l: "lstrip s \<noteq> []" using assms by (auto simp: strip_def rstrip_def)
  have "hd (strip s) = hd (lstrip s)"
    using assms unfolding strip_def by (rule rstrip_hd)
  then show "\<not> isspace (hd (strip s))" using lstrip_hd [OF l] by simp
  show "\<not> isspace (last (strip s))"
    using assms unfolding strip_def by (rule rstrip_last)
qed

lemma strip_fixed: "s \<noteq> [] \<Longrightarrow> \<not> isspace (hd s) \<Longrightarrow> \<not> isspace (last s) \<Longrightarrow> strip s = s"
proof -
  assume s: "s \<noteq> []" and h: "\<not> isspace (hd s)" and l: "\<not> isspace (last s)"
  from s h have "lstrip s = s" by (cases s) (simp_all add: lstrip_def)
  moreover from s l have "rstrip s = s"
    by (cases s rule: rev_cases) (simp_all add: rstrip_def)
  ultimately show ?thesis by (simp add: strip_def)
qed

lemma load_parts_stripped:
  assumes "\<forall>c \<in> set chunks. c \<noteq> [] \<and> \<not> isspace (hd c) \<and> \<not> isspace (last c)"
  shows "\<forall>c \<in> set (load_parts parts chunks). c \<noteq> [] \<and> \<not> isspace (hd c) \<and> \<not> isspace (last c)"
  using assms
proof (induction parts arbitrary: chunks)
  case Nil
  then show ?case by simp
next
  case (Cons part parts)
  define content where
    "content = strip (replace (strip (join ''\<newline>'' (tl (split_sep part ''\<newline>''))))
                        (replicate 50 CHR ''='') [])"
  have step: "load_parts (part # parts) chunks =
      (if content \<noteq> [] then load_parts parts (chunks @ [content]) else load_parts parts chunks)"
    unfolding content_def by (simp only: load_parts.simps Let_def)
  show ?case
  proof (cases "content = []")
    case True
    then show ?thesis using step Cons.IH [OF Cons.prems] by simp
  next
    case False
    then have "\<not> isspace (hd content) \<and> \<not> isspace (last content)"
      unfolding content_def using strip_ends by blast
    then have "\<forall>c \<in> set (chunks @ [content]).
                 c \<noteq> [] \<and> \<not> isspace (hd c) \<and> \<not> isspace (last c)"
      using False Cons.prems by simp
    then have "\<forall>c \<in> set (load_parts parts (chunks @ [content])).
                 c \<noteq> [] \<and> \<not> isspace (hd c) \<and> \<not> isspace (last c)"
      by (rule Cons.IH)
    then show ?thesis using step False by simp
  qed
qed

text \<open>
  C10. Every chunk that \<open>load_processed_documents\<close> returns is not empty, does not begin
  and does not end with a whitespace character, and is left unchanged by \<open>strip\<close>: each
  parsed segment is stripped, and a segment that is empty after stripping is dropped.
\<close>

theorem load_processed_documents_stripped:
  "\<forall>c \<in> set (load_processed_documents file_path fs).
     c \<noteq> [] \<and> \<not> isspace (hd c) \<and> \<not> isspace (last c) \<and> strip c = c"
proof
  fix c assume c: "c \<in> set (load_processed_documents file_path fs)"
  have "\<forall>c \<in> set ([] :: string list). c \<noteq> [] \<and> \<not> isspace (hd c) \<and> \<not> isspace (last c)"
    by simp
  then have parts: "\<forall>c \<in> set (load_parts parts []).
                      c \<noteq> [] \<and> \<not> isspace (hd c) \<and> \<not> isspace (last c)" for parts
    by (rule load_parts_stripped)
  have "c \<noteq> [] \<and> \<not> isspace (hd c) \<and> \<not> isspace (last c)"
  proof (cases "fs file_path")
    case None
    then show ?thesis using c by (simp add: load_processed_documents_def)
  next
    case (Some raw)
    then have "c \<in> set (load_parts (tl (split_sep (universal_newlines raw) ''=== CHUNK'')) [])"
      using c by (simp add: load_processed_documents_def Let_def)
    then show ?thesis using parts by blast
  qed
  then show "c \<noteq> [] \<and> \<not> isspace (hd c) \<and> \<not> isspace (last c) \<and> strip c = c"
    by (simp add: strip_fixed)
qed

theorem load_processed_documents_stripped_witness:
  "load_processed_documents ''f''
       (save_processed_documents [''  hi there \<newline>'', '' ''] ''f'' Map.empty)
     = [''hi there''] \<and>
   ''hi there'' \<noteq> [] \<and> \<not> isspace (hd ''hi there'') \<and> \<not> isspace (last ''hi there'') \<and>
   strip ''hi there'' = ''hi there''"
proof -
  let ?fs = "save_processed_documents [''  hi there \<newline>'', '' ''] ''f'' Map.empty"
  have e: "load_processed_documents ''f'' ?fs = [''hi there'']"
    by code_simp
  have "\<forall>c \<in> set (load_processed_documents ''f'' ?fs).
          c \<noteq> [] \<and> \<not> isspace (hd c) \<and> \<not> isspace (last c) \<and> strip c = c"
    by (rule load_processed_documents_stripped)
  then have "\<forall>c \<in> set [''hi there''].
          c \<noteq> [] \<and> \<not> isspace (hd c) \<and> \<not> isspace (last c) \<and> strip c = c"
    unfolding e .
  then have "''hi there'' \<noteq> [] \<and> \<not> isspace (hd ''hi there'') \<and>
             \<not> isspace (last ''hi there'') \<and> strip ''hi there'' = ''hi there''"
    by simp
  then show ?thesis using e by (intro conjI) simp_all
qed

lemma sublist_set: "sublist p s \<Longrightarrow> set p \<subseteq> set s"
  by (auto simp: sublist_def)

lemma prefix_no_char: "c \<notin> set p \<Longrightarrow> prefix p (x @ c # y) \<Longrightarrow> prefix p x"
  by (auto simp: prefix_append prefix_Cons)

lemma sublist_split_char:
  "c \<notin> set p \<Longrightarrow> sublist p (x @ c # y) \<Longrightarrow> sublist p x \<or> sublist p y"
proof (induction x)
  case Nil
  then show ?case
    by (auto simp: sublist_Cons_right prefix_Cons)
next
  case (Cons a x)
  from Cons.prems(2) have "prefix p ((a # x) @ c # y) \<or> sublist p (x @ c # y)"
    by (simp add: sublist_Cons_right)
  then show ?case
  proof
    assume "prefix p ((a # x) @ c # y)"
    then have "prefix p (a # x)" using Cons.prems(1) by (rule prefix_no_char [rotated])
    then show ?thesis by (auto intro: prefix_imp_sublist)
  next
    assume "sublist p (x @ c # y)"
    then have "sublist p x \<or> sublist p y" using Cons by blast
    then show ?thesis by (auto simp: sublist_Cons_right)
  qed
qed

lemma prefix_window:
  assumes "u \<noteq> []" and "prefix P (u @ Y)"
  shows "prefix P (u @ take (length P - 1) Y)"
proof -
  have P: "P = take (length P) (u @ Y)"
    using assms(2) by (metis append_eq_conv_conj prefix_def)
  have "length P - length u \<le> length P - 1"
    using assms(1) by (cases u) simp_all
  then have "take (length P - length u) Y = take (length P - length u) (take (length P - 1) Y)"
    by (simp add: min_def)
  then have "take (length P) (u @ Y) = take (length P) (u @ take (length P - 1) Y)"
    by simp
  then have "P = take (length P) (u @ take (length P - 1) Y)"
    using P by simp
  then show ?thesis by (metis take_is_prefix)
qed

lemma split_scan_skip:
  "sep \<noteq> [] \<Longrightarrow> \<not> sublist sep (a @ take (length sep - 1) Y) \<Longrightarrow>
   split_scan sep cur (a @ Y) = split_scan sep (cur @ a) Y"
proof (induction a arbitrary: cur)
  case Nil
  then show ?case by simp
next
  case (Cons x a)
  have "\<not> prefix sep ((x # a) @ Y)"
  proof
    assume "prefix sep ((x # a) @ Y)"
    then have "prefix sep ((x # a) @ take (length sep - 1) Y)"
      by (intro prefix_window) simp_all
    then show False using Cons.prems(2) prefix_imp_sublist by blast
  qed
  moreover have "\<not> sublist sep (a @ take (length sep - 1) Y)"
    using Cons.prems(2) by (auto simp: sublist_Cons_right)
  ultimately show ?case
    using Cons.IH [of "cur @ [x]"] Cons.prems(1) by simp
qed

lemma split_scan_sep:
  "sep \<noteq> [] \<Longrightarrow> split_scan sep cur (sep @ Y) = cur # split_scan sep [] Y"
  by (cases sep) simp_all

lemma split_scan_nonempty: "split_scan sep cur s \<noteq> []"
  by (induction sep cur s rule: split_scan.induct) simp_all

lemma join_Cons: "xs \<noteq> [] \<Longrightarrow> join sep (x # xs) = x @ sep @ join sep xs"
  by (cases xs) simp_all

lemma join_split_scan: "sep \<noteq> [] \<Longrightarrow> join sep (split_scan sep cur s) = cur @ s"
proof (induction sep cur s rule: split_scan.induct)
  case (1 sep cur)
  then show ?case by simp
next
  case (2 sep cur c cs)
  show ?case
  proof (cases "prefix sep (c # cs)")
    case True
    then have "sep @ drop (length sep) (c # cs) = c # cs"
      by (metis append_eq_conv_conj prefix_def)
    then show ?thesis
      using 2 True by (simp add: join_Cons split_scan_nonempty)
  next
    case False
    then show ?thesis using 2 by simp
  qed
qed

lemma replace_scan_skip:
  "old \<noteq> [] \<Longrightarrow> \<not> sublist old (a @ take (length old - 1) Y) \<Longrightarrow>
   replace_scan old new (a @ Y) = a @ replace_scan old new Y"
proof (induction a)
  case Nil
  then show ?case by simp
next
  case (Cons x a)
  have "\<not> prefix old ((x # a) @ Y)"
  proof
    assume "prefix old ((x # a) @ Y)"
    then have "prefix old ((x # a) @ take (length old - 1) Y)"
      by (intro prefix_window) simp_all
    then show False using Cons.prems(2) prefix_imp_sublist by blast
  qed
  moreover have "\<not> sublist old (a @ take (length old - 1) Y)"
    using Cons.prems(2) by (auto simp: sublist_Cons_right)
  ultimately show ?case
    using Cons.IH Cons.prems(1) by simp
qed

lemma replace_scan_old:
  "old \<noteq> [] \<Longrightarrow> replace_scan old new (old @ Y) = new @ replace_scan old new Y"
  by (cases old) simp_all

lemma universal_newlines_id: "CHR 0x0D \<notin> set s \<Longrightarrow> universal_newlines s = s"
  by (induction s rule: universal_newlines.induct) auto

lemma strip_nonspace: "strip c \<noteq> [] \<Longrightarrow> \<exists>x \<in> set c. \<not> isspace x"
  by (auto simp: strip_def rstrip_def lstrip_def dest: set_dropWhileD)

lemma lstrip_append: "\<exists>x \<in> set c. \<not> isspace x \<Longrightarrow> lstrip (c @ t) = lstrip c @ t"
  unfolding lstrip_def by auto

lemma rstrip_append_spaces: "\<forall>x \<in> set w. isspace x \<Longrightarrow> rstrip (s @ w) = rstrip s"
proof -
  assume "\<forall>x \<in> set w. isspace x"
  then have "dropWhile isspace (rev w @ rev s) = dropWhile isspace (rev s)"
    by (intro dropWhile_append2) simp
  then show ?thesis by (simp add: rstrip_def)
qed

lemma rstrip_nonspace_end: "\<not> isspace y \<Longrightarrow> rstrip (s @ [y]) = s @ [y]"
  unfolding rstrip_def by simp

lemma lstrip_suffix: "suffix (lstrip c) c"
  unfolding lstrip_def by (rule suffix_dropWhile)

lemma lstrip_idem: "lstrip (lstrip c) = lstrip c"
  unfolding lstrip_def by simp

lemma header_chars:
  assumes "c \<in> set ('' '' @ str_nat n @ '' ==='')"
  shows "c = CHR '' '' \<or> c = CHR ''='' \<or> (48 \<le> (of_char c :: nat) \<and> (of_char c :: nat) \<le> 57)"
  using assms str_nat_digits [of c n] by auto

lemma not_sublist_split_char:
  assumes "c \<notin> set p" and "\<not> sublist p x" and "\<not> sublist p y"
  shows "\<not> sublist p (x @ c # y)"
proof
  assume "sublist p (x @ c # y)"
  with assms(1) have "sublist p x \<or> sublist p y" by (rule sublist_split_char)
  with assms(2,3) show False by simp
qed

lemma save_loop_step:
  "save_loop i (c # cs) w = save_loop (Suc i) cs (w @ ''=== CHUNK'' @ chunk_part i c)"
  by (simp add: chunk_part_def)

lemma save_loop_text:
  "save_loop i chunks w =
     w @ concat (map (\<lambda>(k, c). ''=== CHUNK'' @ chunk_part k c) (List.enumerate i chunks))"
proof (induction chunks arbitrary: i w)
  case Nil
  then show ?case by simp
next
  case (Cons c cs)
  show ?case unfolding save_loop_step Cons.IH by simp
qed

lemma marker_not_in_part:
  assumes "\<not> sublist ''=== CHUNK'' c"
  shows "\<not> sublist ''=== CHUNK'' (chunk_part i c @ take 8 Y)"
proof -
  define sep where "sep = replicate 50 CHR ''=''"
  define p where "p = ''=== CHUNK''"
  define h where "h = '' '' @ str_nat (i + 1) @ '' ===''"
  have nl: "CHR ''\<newline>'' \<notin> set p" by (simp add: p_def)
  have C: "CHR ''C'' \<in> set p" by (simp add: p_def)
  have pc: "\<not> sublist p c" using assms by (simp add: p_def)
  have e: "\<not> sublist p []" by (simp add: p_def)
  have ph: "\<not> sublist p h"
  proof
    assume "sublist p h"
    then have "set p \<subseteq> set h" by (rule sublist_set)
    then have "CHR ''C'' \<in> set h" using C by blast
    then show False using header_chars [of "CHR ''C''" "i + 1"] by (simp add: h_def)
  qed
  have ps: "\<not> sublist p sep"
  proof
    assume "sublist p sep"
    then have "set p \<subseteq> set sep" by (rule sublist_set)
    then have "CHR ''C'' \<in> set sep" using C by blast
    then show False by (simp add: sep_def)
  qed
  have a1: "\<not> sublist p (take 8 Y)"
  proof
    assume "sublist p (take 8 Y)"
    then have "length p \<le> length (take 8 Y)" by (rule sublist_length_le)
    then show False by (simp add: p_def)
  qed
  have a2: "\<not> sublist p ([] @ CHR ''\<newline>'' # take 8 Y)"
    using nl e a1 by (rule not_sublist_split_char)
  have a3: "\<not> sublist p (sep @ CHR ''\<newline>'' # ([] @ CHR ''\<newline>'' # take 8 Y))"
    using nl ps a2 by (rule not_sublist_split_char)
  have a4: "\<not> sublist p ([] @ CHR ''\<newline>'' # (sep @ CHR ''\<newline>'' # ([] @ CHR ''\<newline>'' # take 8 Y)))"
    using nl e a3 by (rule not_sublist_split_char)
  have a5: "\<not> sublist p (c @ CHR ''\<newline>'' #
              ([] @ CHR ''\<newline>'' # (sep @ CHR ''\<newline>'' # ([] @ CHR ''\<newline>'' # take 8 Y))))"
    using nl pc a4 by (rule not_sublist_split_char)
  have a6: "\<not> sublist p (h @ CHR ''\<newline>'' # (c @ CHR ''\<newline>'' #
              ([] @ CHR ''\<newline>'' # (sep @ CHR ''\<newline>'' # ([] @ CHR ''\<newline>'' # take 8 Y)))))"
    using nl ph a5 by (rule not_sublist_split_char)
  have "chunk_part i c @ take 8 Y = h @ CHR ''\<newline>'' # (c @ CHR ''\<newline>'' #
              ([] @ CHR ''\<newline>'' # (sep @ CHR ''\<newline>'' # ([] @ CHR ''\<newline>'' # take 8 Y))))"
    unfolding chunk_part_def h_def sep_def by simp
  then show ?thesis using a6 unfolding p_def by simp
qed

lemma split_file:
  "\<forall>c \<in> set chunks. \<not> sublist ''=== CHUNK'' c \<Longrightarrow>
   split_scan ''=== CHUNK'' cur
       (concat (map (\<lambda>(k, c). ''=== CHUNK'' @ chunk_part k c) (List.enumerate i chunks)))
     = cur # map (\<lambda>(k, c). chunk_part k c) (List.enumerate i chunks)"
proof (induction chunks arbitrary: i cur)
  case Nil
  then show ?case by simp
next
  case (Cons c cs)
  let ?T = "concat (map (\<lambda>(k, c). ''=== CHUNK'' @ chunk_part k c) (List.enumerate (Suc i) cs))"
  have ne: "''=== CHUNK'' \<noteq> []" by simp
  have len: "length ''=== CHUNK'' - 1 = 8" by simp
  have "\<not> sublist ''=== CHUNK'' (chunk_part i c @ take 8 ?T)"
    using Cons.prems by (intro marker_not_in_part) simp
  then have "\<not> sublist ''=== CHUNK'' (chunk_part i c @ take (length ''=== CHUNK'' - 1) ?T)"
    unfolding len .
  then have skip: "split_scan ''=== CHUNK'' [] (chunk_part i c @ ?T)
                     = split_scan ''=== CHUNK'' ([] @ chunk_part i c) ?T"
    by (rule split_scan_skip [OF ne])
  have "split_scan ''=== CHUNK'' cur (''=== CHUNK'' @ (chunk_part i c @ ?T))
          = cur # split_scan ''=== CHUNK'' [] (chunk_part i c @ ?T)"
    using ne by (rule split_scan_sep)
  also have "\<dots> = cur # split_scan ''=== CHUNK'' (chunk_part i c) ?T"
    using skip by simp
  also have "\<dots> = cur # chunk_part i c # map (\<lambda>(k, c). chunk_part k c) (List.enumerate (Suc i) cs)"
    using Cons.prems by (subst Cons.IH) simp_all
  finally show ?case by simp
qed

lemma isspace_newline: "isspace CHR ''\<newline>''"
  by (simp add: isspace_def)

lemma not_isspace_eq: "\<not> isspace CHR ''=''"
  by (simp add: isspace_def)

lemma part_lines:
  "join ''\<newline>'' (tl (split_sep (chunk_part i c) ''\<newline>''))
     = c @ CHR ''\<newline>'' # CHR ''\<newline>'' # replicate 50 CHR ''='' @ ''\<newline>\<newline>''"
proof -
  define h where "h = '' '' @ str_nat (i + 1) @ '' ===''"
  define R where
    "R = c @ CHR ''\<newline>'' # CHR ''\<newline>'' # replicate 50 CHR ''='' @ ''\<newline>\<newline>''"
  have ne: "''\<newline>'' \<noteq> []" by simp
  have part: "chunk_part i c = h @ (''\<newline>'' @ R)"
    by (simp add: chunk_part_def h_def R_def)
  have "CHR ''\<newline>'' \<notin> set h"
    using header_chars [of "CHR ''\<newline>''" "i + 1"] by (auto simp: h_def)
  then have "\<not> sublist ''\<newline>'' h"
    using sublist_set [of "''\<newline>''" h] by auto
  then have "\<not> sublist ''\<newline>'' (h @ take (length ''\<newline>'' - 1) (''\<newline>'' @ R))"
    by simp
  then have "split_scan ''\<newline>'' [] (h @ (''\<newline>'' @ R))
               = split_scan ''\<newline>'' ([] @ h) (''\<newline>'' @ R)"
    by (rule split_scan_skip [OF ne])
  also have "\<dots> = ([] @ h) # split_scan ''\<newline>'' [] R"
    using ne by (rule split_scan_sep)
  finally have "tl (split_sep (chunk_part i c) ''\<newline>'') = split_scan ''\<newline>'' [] R"
    by (simp add: split_sep_def part)
  then have "join ''\<newline>'' (tl (split_sep (chunk_part i c) ''\<newline>'')) = [] @ R"
    using join_split_scan [OF ne, of "[]" R] by simp
  then show ?thesis by (simp add: R_def)
qed

lemma strip_written:
  assumes "strip c \<noteq> []"
  shows "strip (c @ CHR ''\<newline>'' # CHR ''\<newline>'' # replicate 50 CHR ''='' @ ''\<newline>\<newline>'')
           = (lstrip c @ ''\<newline>\<newline>'') @ replicate 50 CHR ''=''"
proof -
  have ns: "\<exists>x \<in> set c. \<not> isspace x" using assms by (rule strip_nonspace)
  have "replicate (Suc 49) CHR ''='' = replicate 49 CHR ''='' @ [CHR ''='']"
    by (simp only: replicate_Suc replicate_append_same)
  then have r: "replicate 50 CHR ''='' = replicate 49 CHR ''='' @ [CHR ''='']"
    by simp
  have "lstrip (c @ CHR ''\<newline>'' # CHR ''\<newline>'' # replicate 50 CHR ''='' @ ''\<newline>\<newline>'')
          = lstrip c @ CHR ''\<newline>'' # CHR ''\<newline>'' # replicate 50 CHR ''='' @ ''\<newline>\<newline>''"
    using ns by (rule lstrip_append)
  also have "\<dots> = ((lstrip c @ ''\<newline>\<newline>'') @ replicate 50 CHR ''='') @ ''\<newline>\<newline>''"
    by simp
  finally have "strip (c @ CHR ''\<newline>'' # CHR ''\<newline>'' # replicate 50 CHR ''='' @ ''\<newline>\<newline>'')
          = rstrip (((lstrip c @ ''\<newline>\<newline>'') @ replicate 50 CHR ''='') @ ''\<newline>\<newline>'')"
    by (simp only: strip_def)
  also have "\<dots> = rstrip ((lstrip c @ ''\<newline>\<newline>'') @ replicate 50 CHR ''='')"
    by (rule rstrip_append_spaces) (simp add: isspace_newline)
  also have "\<dots> = rstrip (((lstrip c @ ''\<newline>\<newline>'') @ replicate 49 CHR ''='') @ [CHR ''=''])"
    by (simp only: r append_assoc)
  also have "\<dots> = ((lstrip c @ ''\<newline>\<newline>'') @ replicate 49 CHR ''='') @ [CHR ''='']"
    using not_isspace_eq by (rule rstrip_nonspace_end)
  also have "\<dots> = (lstrip c @ ''\<newline>\<newline>'') @ replicate 50 CHR ''=''"
    by (simp only: r append_assoc)
  finally show ?thesis .
qed

lemma replace_separator:
  assumes "\<not> sublist (replicate 50 CHR ''='') c"
  shows "replace ((lstrip c @ ''\<newline>\<newline>'') @ replicate 50 CHR ''='') (replicate 50 CHR ''='') []
           = lstrip c @ ''\<newline>\<newline>''"
proof -
  define sep where "sep = replicate 50 CHR ''=''"
  have ne: "sep \<noteq> []" by (simp add: sep_def)
  have nl: "CHR ''\<newline>'' \<notin> set sep" by (simp add: sep_def)
  have len: "length sep = 50" by (simp add: sep_def)
  have "sublist (lstrip c) c"
    using lstrip_suffix by (rule suffix_imp_sublist)
  then have a1: "\<not> sublist sep (lstrip c)"
    using assms sublist_order.order_trans unfolding sep_def by blast
  have a0: "\<not> sublist sep []" using ne by simp
  have a2: "\<not> sublist sep (take (length sep - 1) sep)"
  proof
    assume "sublist sep (take (length sep - 1) sep)"
    then have "length sep \<le> length (take (length sep - 1) sep)" by (rule sublist_length_le)
    then show False using len by simp
  qed
  have a3: "\<not> sublist sep ([] @ CHR ''\<newline>'' # take (length sep - 1) sep)"
    using nl a0 a2 by (rule not_sublist_split_char)
  have a4: "\<not> sublist sep (lstrip c @ CHR ''\<newline>'' # ([] @ CHR ''\<newline>'' # take (length sep - 1) sep))"
    using nl a1 a3 by (rule not_sublist_split_char)
  then have "\<not> sublist sep ((lstrip c @ ''\<newline>\<newline>'') @ take (length sep - 1) (sep @ []))"
    by simp
  then have "replace_scan sep [] ((lstrip c @ ''\<newline>\<newline>'') @ (sep @ []))
               = (lstrip c @ ''\<newline>\<newline>'') @ replace_scan sep [] (sep @ [])"
    by (rule replace_scan_skip [OF ne])
  also have "replace_scan sep [] (sep @ []) = [] @ replace_scan sep [] []"
    using ne by (rule replace_scan_old)
  finally have "replace_scan sep [] ((lstrip c @ ''\<newline>\<newline>'') @ sep) = lstrip c @ ''\<newline>\<newline>''"
    by simp
  then show ?thesis
    using ne unfolding replace_def sep_def by simp
qed

lemma strip_lstrip_newlines:
  assumes "strip c \<noteq> []"
  shows "strip (lstrip c @ ''\<newline>\<newline>'') = strip c"
proof -
  have "lstrip c \<noteq> []" using assms by (auto simp: strip_def rstrip_def)
  then have "\<not> isspace (hd (lstrip c))" by (rule lstrip_hd)
  then have "\<exists>x \<in> set (lstrip c). \<not> isspace x"
    using \<open>lstrip c \<noteq> []\<close> hd_in_set by blast
  then have "lstrip (lstrip c @ ''\<newline>\<newline>'') = lstrip (lstrip c) @ ''\<newline>\<newline>''"
    by (rule lstrip_append)
  then have "strip (lstrip c @ ''\<newline>\<newline>'') = rstrip (lstrip c @ ''\<newline>\<newline>'')"
    by (simp only: strip_def lstrip_idem)
  also have "\<dots> = rstrip (lstrip c)"
    by (rule rstrip_append_spaces) (simp add: isspace_newline)
  finally show ?thesis by (simp only: strip_def)
qed

lemma part_content:
  assumes "\<not> sublist (replicate 50 CHR ''='') c" and "strip c \<noteq> []"
  shows "strip (replace (strip (join ''\<newline>'' (tl (split_sep (chunk_part i c) ''\<newline>''))))
                  (replicate 50 CHR ''='') []) = strip c"
  unfolding part_lines strip_written [OF assms(2)] replace_separator [OF assms(1)]
  using assms(2) by (rule strip_lstrip_newlines)

lemma load_parts_step:
  assumes "\<not> sublist (replicate 50 CHR ''='') c" and "strip c \<noteq> []"
  shows "load_parts (chunk_part i c # parts) chunks = load_parts parts (chunks @ [strip c])"
proof -
  have "load_parts (chunk_part i c # parts) chunks =
      (let content = strip (replace (strip (join ''\<newline>'' (tl (split_sep (chunk_part i c) ''\<newline>''))))
                        (replicate 50 CHR ''='') []) in
       if content \<noteq> [] then load_parts parts (chunks @ [content]) else load_parts parts chunks)"
    by (simp only: load_parts.simps Let_def)
  then show ?thesis
    unfolding part_content [OF assms] Let_def using assms(2) by simp
qed

lemma load_parts_written:
  "\<forall>c \<in> set cs. \<not> sublist (replicate 50 CHR ''='') c \<and> strip c \<noteq> [] \<Longrightarrow>
   load_parts (map (\<lambda>(k, c). chunk_part k c) (List.enumerate i cs)) chunks
     = chunks @ map strip cs"
proof (induction cs arbitrary: i chunks)
  case Nil
  then show ?case by simp
next
  case (Cons c cs)
  have "load_parts (chunk_part i c # map (\<lambda>(k, c). chunk_part k c) (List.enumerate (Suc i) cs)) chunks
          = load_parts (map (\<lambda>(k, c). chunk_part k c) (List.enumerate (Suc i) cs)) (chunks @ [strip c])"
    using Cons.prems by (intro load_parts_step) simp_all
  also have "\<dots> = (chunks @ [strip c]) @ map strip cs"
    using Cons.prems by (intro Cons.IH) simp
  finally show ?case by simp
qed

lemma file_no_cr:
  assumes "\<forall>c \<in> set cs. CHR 0x0D \<notin> set c"
  shows "CHR 0x0D \<notin> set (concat (map (\<lambda>(k, c). ''=== CHUNK'' @ chunk_part k c) (List.enumerate i cs)))"
proof -
  have "CHR 0x0D \<notin> set (chunk_part k c)" if "CHR 0x0D \<notin> set c" for k c
    using that header_chars [of "CHR 0x0D" "k + 1"] by (auto simp: chunk_part_def)
  then show ?thesis
    using assms by (auto simp: in_set_enumerate_eq)
qed

text \<open>
  C2, as stated, fails. A chunk that contains the marker \<open>=== CHUNK\<close> is cut at it; a
  chunk of whitespace only is dropped, so fewer chunks come back than were written; a run
  of 50 equals signs inside a chunk is removed; and a carriage return comes back as a line
  feed. In none of these cases is the loaded list the written one up to whitespace at the
  ends of the chunks.
\<close>

theorem save_load_not_identity:
  "load_processed_documents ''f'' (save_processed_documents [''a=== CHUNKb''] ''f'' Map.empty)
     = [''a''] \<and>
   strip ''a=== CHUNKb'' \<noteq> ''a'' \<and>
   load_processed_documents ''f'' (save_processed_documents ['' '', ''b''] ''f'' Map.empty)
     = [''b''] \<and>
   length [''b''] \<noteq> length ['' '', ''b''] \<and>
   load_processed_documents ''f''
       (save_processed_documents [''x'' @ replicate 50 CHR ''='' @ ''y''] ''f'' Map.empty)
     = [''xy''] \<and>
   strip (''x'' @ replicate 50 CHR ''='' @ ''y'') \<noteq> ''xy'' \<and>
   load_processed_documents ''f''
       (save_processed_documents [[CHR ''a'', CHR 0x0D, CHR ''b'']] ''f'' Map.empty)
     = [[CHR ''a'', CHR ''\<newline>'', CHR ''b'']] \<and>
   strip [CHR ''a'', CHR 0x0D, CHR ''b''] \<noteq> [CHR ''a'', CHR ''\<newline>'', CHR ''b'']"
  by code_simp

text \<open>
  C2, amended. For every list of chunks none of which contains the marker \<open>=== CHUNK\<close>,
  a run of 50 equals signs or a carriage return, and each of which has a character that
  is not whitespace, writing the chunks with \<open>save_processed_documents\<close> and reading the
  file with \<open>load_processed_documents\<close> yields as many chunks as were written, each equal
  to the original with its leading and trailing whitespace stripped.
\<close>

theorem save_load_roundtrip:
  assumes "\<forall>c \<in> set chunks.
             \<not> sublist ''=== CHUNK'' c \<and> \<not> sublist (replicate 50 CHR ''='') c \<and>
             CHR 0x0D \<notin> set c \<and> strip c \<noteq> []"
  shows "load_processed_documents path (save_processed_documents chunks path fs)
           = map strip chunks \<and>
         length (load_processed_documents path (save_processed_documents chunks path fs))
           = length chunks"
proof -
  let ?T = "concat (map (\<lambda>(k, c). ''=== CHUNK'' @ chunk_part k c) (List.enumerate 0 chunks))"
  have written: "save_processed_documents chunks path fs path = Some ?T"
    by (simp add: save_processed_documents_def save_loop_text)
  have "CHR 0x0D \<notin> set ?T"
    using assms by (intro file_no_cr) simp
  then have read: "universal_newlines ?T = ?T"
    by (rule universal_newlines_id)
  have "split_scan ''=== CHUNK'' [] ?T = [] # map (\<lambda>(k, c). chunk_part k c) (List.enumerate 0 chunks)"
    using assms by (intro split_file) simp
  then have parts: "tl (split_sep ?T ''=== CHUNK'') = map (\<lambda>(k, c). chunk_part k c) (List.enumerate 0 chunks)"
    by (simp add: split_sep_def)
  have "load_parts (map (\<lambda>(k, c). chunk_part k c) (List.enumerate 0 chunks)) [] = [] @ map strip chunks"
    using assms by (intro load_parts_written) simp
  then have "load_processed_documents path (save_processed_documents chunks path fs) = map strip chunks"
    unfolding load_processed_documents_def written option.case Let_def read parts by simp
  then show ?thesis by simp
qed

theorem save_load_roundtrip_witness:
  "load_processed_documents ''f''
       (save_processed_documents [''hello world'', ''  second\<newline>chunk ''] ''f'' Map.empty)
     = [''hello world'', ''second\<newline>chunk''] \<and>
   map strip [''hello world'', ''  second\<newline>chunk ''] = [''hello world'', ''second\<newline>chunk'']"
proof -
  let ?chunks = "[''hello world'', ''  second\<newline>chunk '']"
  have h: "\<forall>c \<in> set ?chunks.
             \<not> sublist ''=== CHUNK'' c \<and> \<not> sublist (replicate 50 CHR ''='') c \<and>
             CHR 0x0D \<notin> set c \<and> strip c \<noteq> []"
    by code_simp
  have s: "map strip ?chunks = [''hello world'', ''second\<newline>chunk'']"
    by code_simp
  have "load_processed_documents ''f'' (save_processed_documents ?chunks ''f'' Map.empty)
          = map strip ?chunks"
    using save_load_roundtrip [OF h, of "''f''" Map.empty] by (rule conjunct1)
  then show ?thesis unfolding s by simp
qed

end
